theory Spec2Isabelle
  imports Main
begin

section \<open>Machine integers and faults\<close>

text \<open>
  The C++ sources compute with \<open>int\<close> (32 bits, two's complement). Values are modelled
  as HOL integers; wherever the source's arithmetic can leave the range of \<open>int\<close>, or a
  wider value is converted to \<open>int\<close>, the wrap-around is written out with
  \<open>to_int32\<close>. (C++ leaves signed overflow undefined; the model takes the value the
  two's-complement hardware delivers.) Loop counters that stay below a bound of type
  \<open>int\<close> cannot overflow and are incremented without it.
\<close>

definition INT_MAX :: int where
  "INT_MAX = 2147483647"

definition to_int32 :: "int \<Rightarrow> int" where
  "to_int32 x = (x + 2147483648) mod 4294967296 - 2147483648"

text \<open>
  Reads and writes outside an array, a failed \<open>assert\<close> and a failed allocation end the
  run; they are results of the model, not unspecified values.
\<close>

datatype fault = OutOfBounds | AssertionFailed | BadAlloc

definition in_range :: "int \<Rightarrow> 'a list \<Rightarrow> bool" where
  "in_range i xs = (0 \<le> i \<and> i < int (length xs))"

section \<open>permute\_util.h: the permutation validator\<close>

text \<open>
  \<open>is_unique_permutation\<close> is a template over the element type \<open>T\<close>. What the code
  needs of \<open>T\<close> is the conversion \<open>T(permute.size())\<close>; the model takes that conversion as
  the parameter \<open>T\<close> (\<open>to_int32\<close> for \<open>T = int\<close>, the element type of the permutation
  vectors that \<open>count_nnz_fillin\<close> is handed). The memory the function works on: the
  caller's buffer behind the pointer \<open>h_permute\<close>, and the private vector \<open>permute\<close>. The
  unsigned count \<open>size\<close> is the natural number \<open>sz\<close>.
\<close>

record perm_mem =
  h_permute :: "int list"
  permute :: "int list"

text \<open>
  The loop \<open>for (T i = 0; i < T(permute.size()); ++i) if (i != permute[i]) return false;\<close>
  followed by \<open>return true\<close>. The bound is the vector's size converted to \<open>T\<close>; \<open>i\<close> stays
  below it, so \<open>++i\<close> does not overflow.
\<close>

function check_sorted :: "(int \<Rightarrow> int) \<Rightarrow> int \<Rightarrow> int list \<Rightarrow> fault + bool" where
  "check_sorted T i p =
     (if i < T (int (length p)) then
        (if \<not> in_range i p then Inl OutOfBounds
         else if i \<noteq> p ! nat i then Inr False
         else check_sorted T (i + 1) p)
      else Inr True)"
  by pat_completeness auto
termination
  by (relation "measure (\<lambda>(T, i, p). nat (T (int (length p)) - i))") auto

declare check_sorted.simps [simp del]

text \<open>
  The statements of the body in order: the vector is allocated with \<open>size\<close> elements,
  \<open>memcpy\<close> fills it from the first \<open>size\<close> elements behind \<open>h_permute\<close> (reading past
  the end of the caller's buffer is a fault), \<open>std::sort\<close> sorts it, the loop checks it.
  The result is paired with the memory the call leaves behind.
\<close>

definition is_unique_permutation ::
  "(int \<Rightarrow> int) \<Rightarrow> nat \<Rightarrow> perm_mem \<Rightarrow> (fault + bool) \<times> perm_mem" where
  "is_unique_permutation T sz m =
     (let m1 = m\<lparr>permute := replicate sz 0\<rparr> in
      if length (h_permute m1) < sz then (Inl OutOfBounds, m1)
      else
        let m2 = m1\<lparr>permute := take sz (h_permute m1)\<rparr>;
            m3 = m2\<lparr>permute := sort (permute m2)\<rparr>
        in (check_sorted T 0 (permute m3), m3))"

section \<open>count\_nnz\_fillin.h: the factorization oracle\<close>

text \<open>
  An \<open>Eigen::SparseMatrix\<close>: its order and its stored entries \<open>(row, col, value)\<close>, in the
  order in which the nested loops of \<open>exportToPlainText\<close> meet them (outer index \<open>k\<close>, then
  the \<open>InnerIterator\<close> of \<open>k\<close>). \<open>nonZeros()\<close> is the number of stored entries. The
  values are never inspected by this code; their type is left open.
\<close>

record 'v sparse =
  e_rows :: int
  e_entries :: "(int \<times> int \<times> 'v) list"

definition nonZeros :: "'v sparse \<Rightarrow> int" where
  "nonZeros m = int (length (e_entries m))"

text \<open>
  Modelled from the spec: the status of the numeric factorization collaborator
  (\<open>Eigen::ComputationInfo\<close>, declared outside this repository), either success or a
  failure code; and what \<open>SimplicialLLT\<close> holds after \<open>compute\<close>, namely that status and
  the lower factor \<open>matrixL()\<close>.
\<close>

datatype 'c computation_info = Success | Failure 'c

record ('v, 'c) llt =
  info :: "'c computation_info"
  matrixL :: "'v sparse"

text \<open>
  Modelled from the spec: \<open>RXMESH_ERROR\<close>, a logging macro declared outside these
  sources, surfaces a diagnostic (here its format string and its argument) and returns.
  The other diagnostic is a line written to \<open>std::cerr\<close>.
\<close>

datatype 'c diagnostic = Cerr string | RxmeshError string "'c computation_info"

text \<open>
  What the oracle does to the outside world: the files it writes (a file is the list of
  its lines, a line \<open><row> <col> <value>\<close> kept as a triple), the diagnostics it emits,
  and the number of factorizations it has asked the collaborator for. \<open>openable\<close> says
  which paths \<open>std::ofstream\<close> can open.
\<close>

record ('v, 'c) world =
  openable :: "string \<Rightarrow> bool"
  files :: "string \<Rightarrow> (int \<times> int \<times> 'v) list option"
  diagnostics :: "'c diagnostic list"
  factorizations :: nat

definition exportToPlainText ::
  "'v sparse \<Rightarrow> string \<Rightarrow> ('v, 'c) world \<Rightarrow> ('v, 'c) world" where
  "exportToPlainText mat filename w =
     (if \<not> openable w filename then
        w\<lparr>diagnostics := diagnostics w @ [Cerr (''Error opening file: '' @ filename)]\<rparr>
      else
        w\<lparr>files := (files w)(filename \<mapsto> map (\<lambda>(r, c, v). (r + 1, c + 1, v)) (e_entries mat))\<rparr>)"

text \<open>
  The loop \<open>for (int i = 0; i < eigen_mat.rows(); ++i) perm.indices()[i] = h_permute[i];\<close>
  on the two vectors it touches: the caller's \<open>h_permute\<close> (passed by reference) and the
  indices of the permutation matrix.
\<close>

record oracle_mem =
  h_permute_vec :: "int list"
  perm_indices :: "int list"

function copy_permutation :: "int \<Rightarrow> int \<Rightarrow> oracle_mem \<Rightarrow> fault + oracle_mem" where
  "copy_permutation i n m =
     (if i < n then
        (if \<not> in_range i (h_permute_vec m) \<or> \<not> in_range i (perm_indices m) then Inl OutOfBounds
         else copy_permutation (i + 1) n
                (m\<lparr>perm_indices := (perm_indices m)[nat i := h_permute_vec m ! nat i]\<rparr>))
      else Inr m)"
  by pat_completeness auto
termination
  by (relation "measure (\<lambda>(i, n, m). nat (n - i))") auto

declare copy_permutation.simps [simp del]

text \<open>
  The oracle overload \<open>count_nnz_fillin(eigen_mat, h_permute, st)\<close>. Eigen's
  \<open>permute_symm_to_fullsymm\<close> and \<open>SimplicialLLT::compute\<close> are code of the Eigen library,
  taken as the parameters \<open>permute_symm\<close> and \<open>compute\<close>. The \<open>assert\<close> is checked, as in a
  debug build. \<open>nonZeros()\<close> and \<open>rows()\<close> are 64-bit \<open>Eigen::Index\<close> values;
  \<open>lower_nnz\<close> and the returned value are \<open>int\<close>, and \<open>2 * lower_nnz\<close> is computed in
  \<open>int\<close>. The result comes with the world and the caller's vector after the call.
\<close>

definition count_nnz_fillin_eigen ::
  "('v sparse \<Rightarrow> int list \<Rightarrow> 'v sparse) \<Rightarrow> ('v sparse \<Rightarrow> ('v, 'c) llt) \<Rightarrow>
   'v sparse \<Rightarrow> int list \<Rightarrow> string \<Rightarrow> ('v, 'c) world \<Rightarrow>
   (fault + int) \<times> ('v, 'c) world \<times> int list" where
  "count_nnz_fillin_eigen permute_symm compute eigen_mat h_perm st w =
     (if int (length h_perm) \<noteq> e_rows eigen_mat then (Inl AssertionFailed, w, h_perm)
      else
        case copy_permutation 0 (e_rows eigen_mat)
               \<lparr>h_permute_vec = h_perm, perm_indices = replicate (nat (e_rows eigen_mat)) 0\<rparr> of
          Inl f \<Rightarrow> (Inl f, w, h_perm)
        | Inr m \<Rightarrow>
            let permuted_mat = permute_symm eigen_mat (perm_indices m);
                w1 = exportToPlainText permuted_mat (st @ ''.txt'') w;
                solver = compute permuted_mat;
                w2 = w1\<lparr>factorizations := factorizations w1 + 1\<rparr>
            in
              if info solver \<noteq> Success then
                (Inr (- 1),
                 w2\<lparr>diagnostics := diagnostics w2 @
                    [RxmeshError
                      ''post_chol_factorization_nnz(): Cholesky decomposition with reorder failed with code {}''
                      (info solver)]\<rparr>,
                 h_permute_vec m)
              else
                let lower_mat = matrixL solver;
                    lower_nnz = to_int32 (nonZeros lower_mat - e_rows lower_mat)
                in (Inr (to_int32 (to_int32 (2 * lower_nnz) + e_rows lower_mat)),
                    w2, h_permute_vec m))"

section \<open>count\_nnz\_fillin.h: the elimination-tree counter\<close>

text \<open>
  What the counter reads of an \<open>rxmesh::SparseMatrix\<close>: \<open>rows()\<close> and the arrays behind
  \<open>row_ptr()\<close> and \<open>col_idx()\<close>. Its working state: the three vectors and the counter
  \<open>nnz\<close>.
\<close>

record csr =
  rows :: int
  row_ptr :: "int list"
  col_idx :: "int list"

record etree =
  parent :: "int list"
  nonZerosPerCol :: "int list"
  tags :: "int list"
  nnz :: int

text \<open>The first three statements of the row loop's body, for row \<open>r\<close>.\<close>

definition row_init :: "int \<Rightarrow> etree \<Rightarrow> etree" where
  "row_init r s =
     (let s1 = s\<lparr>parent := (parent s)[nat r := - 1]\<rparr>;
          s2 = s1\<lparr>tags := (tags s1)[nat r := r]\<rparr>
      in s2\<lparr>nonZerosPerCol := (nonZerosPerCol s2)[nat r := 0]\<rparr>)"

text \<open>
  The body of the ancestor walk at node \<open>c\<close> in row \<open>r\<close>: attach \<open>c\<close> if it has no parent
  yet, count the entry \<open>L(r,c)\<close>, tag \<open>c\<close>.
\<close>

definition walk_body :: "int \<Rightarrow> int \<Rightarrow> etree \<Rightarrow> etree" where
  "walk_body r c s =
     (let s1 = (if parent s ! nat c = - 1 then s\<lparr>parent := (parent s)[nat c := r]\<rparr> else s);
          s2 = s1\<lparr>nonZerosPerCol :=
                 (nonZerosPerCol s1)[nat c := to_int32 (nonZerosPerCol s1 ! nat c + 1)]\<rparr>;
          s3 = s2\<lparr>nnz := to_int32 (nnz s2 + 1)\<rparr>
      in s3\<lparr>tags := (tags s3)[nat c := r]\<rparr>)"

text \<open>
  The walk \<open>for (; tags[c] != r; c = parent[c]) { ... }\<close>. Every turn tags one more node
  with \<open>r\<close>, so the number of nodes not tagged \<open>r\<close> is a measure: the walk ends from
  every state.
\<close>

function walk :: "int \<Rightarrow> int \<Rightarrow> etree \<Rightarrow> fault + etree" where
  "walk r c s =
     (if \<not> in_range c (tags s) then Inl OutOfBounds
      else if tags s ! nat c \<noteq> r then
        (if \<not> in_range c (parent s) \<or> \<not> in_range c (nonZerosPerCol s) then Inl OutOfBounds
         else let s' = walk_body r c s in walk r (parent s' ! nat c) s')
      else Inr s)"
  by pat_completeness auto
termination
proof (relation "measure (\<lambda>(r, c, s). length (filter (\<lambda>t. t \<noteq> r) (tags s)))")
  show "wf (measure (\<lambda>(r, c, s). length (filter (\<lambda>t. t \<noteq> r) (tags s))))"
    by simp
next
  fix r c :: int and s s' :: etree
  assume inr: "\<not> \<not> in_range c (tags s)" and ne: "tags s ! nat c \<noteq> r"
    and s': "s' = walk_body r c s"
  have lt: "nat c < length (tags s)"
    using inr by (simp add: in_range_def nat_less_iff)
  have t: "tags s' = (tags s)[nat c := r]"
    by (simp add: s' walk_body_def Let_def)
  have "{i. i < length (tags s) \<and> (tags s)[nat c := r] ! i \<noteq> r}
        \<subset> {i. i < length (tags s) \<and> tags s ! i \<noteq> r}"
    using lt ne by (auto simp: nth_list_update)
  then have "card {i. i < length (tags s) \<and> (tags s)[nat c := r] ! i \<noteq> r}
             < card {i. i < length (tags s) \<and> tags s ! i \<noteq> r}"
    by (intro psubset_card_mono) simp_all
  then have "length (filter (\<lambda>t. t \<noteq> r) (tags s')) < length (filter (\<lambda>t. t \<noteq> r) (tags s))"
    by (simp add: t length_filter_conv_card)
  then show "((r, parent s' ! nat c, s'), (r, c, s))
             \<in> measure (\<lambda>(r, c, s). length (filter (\<lambda>t. t \<noteq> r) (tags s)))"
    by simp
qed

declare walk.simps [simp del]

text \<open>The loop over the stored entries \<open>i = start, ..., end - 1\<close> of row \<open>r\<close>.\<close>

function entries_loop :: "csr \<Rightarrow> int \<Rightarrow> int \<Rightarrow> int \<Rightarrow> etree \<Rightarrow> fault + etree" where
  "entries_loop mat r i e s =
     (if i < e then
        (if \<not> in_range i (col_idx mat) then Inl OutOfBounds
         else
           let c = col_idx mat ! nat i in
           if c < r then
             (case walk r c s of
                Inl f \<Rightarrow> Inl f
              | Inr s' \<Rightarrow> entries_loop mat r (i + 1) e s')
           else entries_loop mat r (i + 1) e s)
      else Inr s)"
  by pat_completeness auto
termination
  by (relation "measure (\<lambda>(mat, r, i, e, s). nat (e - i))") auto

declare entries_loop.simps [simp del]

text \<open>The loop over the rows \<open>r = 0, ..., size - 1\<close>.\<close>

function rows_loop :: "csr \<Rightarrow> int \<Rightarrow> int \<Rightarrow> etree \<Rightarrow> fault + etree" where
  "rows_loop mat sz r s =
     (if r < sz then
        (if \<not> in_range r (parent s) \<or> \<not> in_range r (tags s) \<or> \<not> in_range r (nonZerosPerCol s)
         then Inl OutOfBounds
         else
           let s1 = row_init r s in
           if \<not> in_range r (row_ptr mat) \<or> \<not> in_range (r + 1) (row_ptr mat) then Inl OutOfBounds
           else
             (case entries_loop mat r (row_ptr mat ! nat r) (row_ptr mat ! nat (r + 1)) s1 of
                Inl f \<Rightarrow> Inl f
              | Inr s2 \<Rightarrow> rows_loop mat sz (r + 1) s2))
      else Inr s)"
  by pat_completeness auto
termination
  by (relation "measure (\<lambda>(mat, sz, r, s). nat (sz - r))") auto

declare rows_loop.simps [simp del]

text \<open>
  The three vectors as \<open>std::vector<int>(size)\<close> creates them (every element zero; a
  negative size is refused by the allocation), the sweep over the rows, and the value
  returned, computed in \<open>int\<close>.
\<close>

definition initial_etree :: "int \<Rightarrow> etree" where
  "initial_etree sz =
     \<lparr>parent = replicate (nat sz) 0, nonZerosPerCol = replicate (nat sz) 0,
      tags = replicate (nat sz) 0, nnz = 0\<rparr>"

definition fill_count :: "csr \<Rightarrow> etree \<Rightarrow> int" where
  "fill_count mat s = to_int32 (2 * nnz s + rows mat)"

definition count_nnz_fillin :: "csr \<Rightarrow> fault + int" where
  "count_nnz_fillin mat =
     (if rows mat < 0 then Inl BadAlloc
      else
        case rows_loop mat (rows mat) 0 (initial_etree (rows mat)) of
          Inl f \<Rightarrow> Inl f
        | Inr s \<Rightarrow> Inr (fill_count mat s))"

subsection \<open>The sweep, one step at a time\<close>

text \<open>
  The same code as a machine whose configurations are the loop heads: \<open>AtRow r s\<close> is the
  test \<open>r < size\<close> of the row loop, \<open>AtEntry r i e s\<close> the test \<open>i < end\<close> of the entry
  loop, \<open>AtWalk r i e c s\<close> the test \<open>tags[c] != r\<close> of the walk. \<open>step\<close> runs the code
  from one loop head to the next.
\<close>

datatype point =
    AtRow int etree
  | AtEntry int int int etree
  | AtWalk int int int int etree
  | Returned int
  | Faulted fault

fun step :: "csr \<Rightarrow> point \<Rightarrow> point" where
  "step mat (AtRow r s) =
     (if r < rows mat then
        (if \<not> in_range r (parent s) \<or> \<not> in_range r (tags s) \<or> \<not> in_range r (nonZerosPerCol s)
         then Faulted OutOfBounds
         else
           let s1 = row_init r s in
           if \<not> in_range r (row_ptr mat) \<or> \<not> in_range (r + 1) (row_ptr mat)
           then Faulted OutOfBounds
           else AtEntry r (row_ptr mat ! nat r) (row_ptr mat ! nat (r + 1)) s1)
      else Returned (fill_count mat s))"
| "step mat (AtEntry r i e s) =
     (if i < e then
        (if \<not> in_range i (col_idx mat) then Faulted OutOfBounds
         else
           let c = col_idx mat ! nat i in
           if c < r then AtWalk r i e c s else AtEntry r (i + 1) e s)
      else AtRow (r + 1) s)"
| "step mat (AtWalk r i e c s) =
     (if \<not> in_range c (tags s) then Faulted OutOfBounds
      else if tags s ! nat c \<noteq> r then
        (if \<not> in_range c (parent s) \<or> \<not> in_range c (nonZerosPerCol s) then Faulted OutOfBounds
         else let s' = walk_body r c s in AtWalk r i e (parent s' ! nat c) s')
      else AtEntry r (i + 1) e s)"
| "step mat (Returned v) = Returned v"
| "step mat (Faulted f) = Faulted f"

definition start_point :: "csr \<Rightarrow> point" where
  "start_point mat =
     (if rows mat < 0 then Faulted BadAlloc else AtRow 0 (initial_etree (rows mat)))"

definition point_after :: "csr \<Rightarrow> nat \<Rightarrow> point" where
  "point_after mat k = (step mat ^^ k) (start_point mat)"

section \<open>Concrete inputs\<close>

text \<open>
  A matrix with every entry on and below the diagonal stored, as Eigen keeps it (column
  by column, column \<open>c\<close> holding the rows \<open>c, ..., n - 1\<close>) and with every entry stored;
  the values are immaterial. A world in which every path can be opened and nothing has
  happened yet.
\<close>

definition dense_lower :: "nat \<Rightarrow> unit sparse" where
  "dense_lower n =
     \<lparr>e_rows = int n,
      e_entries = concat (map (\<lambda>c. map (\<lambda>r. (int r, int c, ())) [c..<n]) [0..<n])\<rparr>"

definition dense_full :: "nat \<Rightarrow> unit sparse" where
  "dense_full n =
     \<lparr>e_rows = int n,
      e_entries = concat (map (\<lambda>c. map (\<lambda>r. (int r, int c, ())) [0..<n]) [0..<n])\<rparr>"

definition fresh_world :: "(unit, 'c) world" where
  "fresh_world = \<lparr>openable = (\<lambda>f. True), files = (\<lambda>f. None), diagnostics = [], factorizations = 0\<rparr>"

section \<open>Input patterns and invariants of the sweep\<close>

text \<open>
  A well-formed full-CSR pattern of order \<open>n\<close>: \<open>n + 1\<close> row pointers, starting at a valid
  offset, monotone, ending within the column array, and every column index in \<open>[0, n)\<close>.
  \<open>row_cols mat r\<close> lists the column indices stored in row \<open>r\<close>.
\<close>

definition well_formed :: "csr \<Rightarrow> bool" where
  "well_formed mat \<longleftrightarrow>
     0 \<le> rows mat \<and>
     length (row_ptr mat) = nat (rows mat) + 1 \<and>
     0 \<le> row_ptr mat ! 0 \<and>
     (\<forall>r \<in> {0..<nat (rows mat)}. row_ptr mat ! r \<le> row_ptr mat ! (r + 1)) \<and>
     row_ptr mat ! nat (rows mat) \<le> int (length (col_idx mat)) \<and>
     (\<forall>c \<in> set (col_idx mat). 0 \<le> c \<and> c < rows mat)"

definition row_cols :: "csr \<Rightarrow> nat \<Rightarrow> int list" where
  "row_cols mat r =
     map (\<lambda>i. col_idx mat ! i) [nat (row_ptr mat ! r)..<nat (row_ptr mat ! (r + 1))]"

text \<open>
  The forest property of \<open>parent\<close> on the first \<open>k\<close> nodes, with \<open>b\<close> the row reached so
  far. A node that no walk has reached yet still carries its own tag and has no parent. A
  node that has been reached has a parent: a strictly greater index, a row not after the
  row \<open>tags[v]\<close> that reached it last.
\<close>

definition forest :: "nat \<Rightarrow> int \<Rightarrow> etree \<Rightarrow> bool" where
  "forest k b s \<longleftrightarrow>
     (\<forall>v \<in> {0..<k}.
        (parent s ! v = - 1 \<and> tags s ! v = int v) \<or>
        (int v < parent s ! v \<and> parent s ! v \<le> tags s ! v \<and> tags s ! v \<le> b))"

text \<open>
  What C10 says of a configuration: before row \<open>r\<close> starts, the nodes below \<open>r\<close> are
  initialized; within row \<open>r\<close>, the nodes up to \<open>r\<close> are; and whenever the body of the walk
  is about to run at node \<open>c\<close> (the only place where \<open>parent[c] = r\<close> is assigned), \<open>c < r\<close>.
\<close>

fun sweep_invariant :: "point \<Rightarrow> bool" where
  "sweep_invariant (AtRow r s) = forest (nat r) (r - 1) s"
| "sweep_invariant (AtEntry r i e s) = forest (nat r + 1) r s"
| "sweep_invariant (AtWalk r i e c s) =
     (forest (nat r + 1) r s \<and> (in_range c (tags s) \<and> tags s ! nat c \<noteq> r \<longrightarrow> c < r))"
| "sweep_invariant (Returned v) = True"
| "sweep_invariant (Faulted f) = True"

text \<open>
  What C10 says of two configurations, \<open>q\<close> reached after \<open>p\<close>. The state of a
  configuration, the number of nodes initialized in it, and the row and node of a walk
  about to test its node.
\<close>

fun etree_at :: "point \<Rightarrow> etree option" where
  "etree_at (AtRow r s) = Some s"
| "etree_at (AtEntry r i e s) = Some s"
| "etree_at (AtWalk r i e c s) = Some s"
| "etree_at (Returned v) = None"
| "etree_at (Faulted f) = None"

fun initialized :: "point \<Rightarrow> nat" where
  "initialized (AtRow r s) = nat r"
| "initialized (AtEntry r i e s) = nat r + 1"
| "initialized (AtWalk r i e c s) = nat r + 1"
| "initialized (Returned v) = 0"
| "initialized (Faulted f) = 0"

fun at_walk :: "point \<Rightarrow> (int \<times> int) option" where
  "at_walk (AtWalk r i e c s) = Some (r, c)"
| "at_walk p = None"

text \<open>
  \<open>parent_kept p q\<close>: a parent known in \<open>p\<close> is the same in \<open>q\<close>; once a row has
  discovered a node, no later visit changes its parent. \<open>first_discovery p q\<close>, for one
  step from \<open>p\<close> to \<open>q\<close>: a node \<open>v\<close> that has no parent in \<open>p\<close> and has one in \<open>q\<close> is the
  node a walk of \<open>p\<close> stands at, no walk had reached it before (it carries its own tag),
  and its parent in \<open>q\<close> is the row of that walk, a row above \<open>v\<close>.
\<close>

definition parent_kept :: "point \<Rightarrow> point \<Rightarrow> bool" where
  "parent_kept p q \<longleftrightarrow>
     (case (etree_at p, etree_at q) of
        (Some s, Some s') \<Rightarrow>
          (\<forall>v \<in> {0..<initialized p}. parent s ! v \<noteq> - 1 \<longrightarrow> parent s' ! v = parent s ! v)
      | _ \<Rightarrow> True)"

definition first_discovery :: "point \<Rightarrow> point \<Rightarrow> bool" where
  "first_discovery p q \<longleftrightarrow>
     (case (etree_at p, etree_at q) of
        (Some s, Some s') \<Rightarrow>
          (\<forall>v \<in> {0..<initialized p}.
             parent s ! v = - 1 \<and> parent s' ! v \<noteq> - 1 \<longrightarrow>
               at_walk p = Some (parent s' ! v, int v) \<and> int v < parent s' ! v \<and>
               tags s ! v = int v)
      | _ \<Rightarrow> True)"

text \<open>
  The invariant the proofs carry: the vectors keep their length \<open>N\<close>, and on the first \<open>k\<close>
  nodes parents and tags are bounded by \<open>b\<close>; within row \<open>r\<close>, node \<open>r\<close> is tagged \<open>r\<close>.
\<close>

definition etree_ok :: "nat \<Rightarrow> nat \<Rightarrow> int \<Rightarrow> etree \<Rightarrow> bool" where
  "etree_ok N k b s \<longleftrightarrow>
     length (parent s) = N \<and> length (tags s) = N \<and> length (nonZerosPerCol s) = N \<and> k \<le> N \<and>
     (\<forall>v < k. (parent s ! v = - 1 \<or> int v < parent s ! v) \<and> parent s ! v \<le> b \<and> tags s ! v \<le> b)"

definition in_row :: "nat \<Rightarrow> int \<Rightarrow> etree \<Rightarrow> bool" where
  "in_row N r s \<longleftrightarrow> 0 \<le> r \<and> etree_ok N (nat r + 1) r s \<and> tags s ! nat r = r"

fun point_ok :: "csr \<Rightarrow> point \<Rightarrow> bool" where
  "point_ok mat (AtRow r s) =
     (0 \<le> r \<and> r \<le> rows mat \<and> etree_ok (nat (rows mat)) (nat r) (r - 1) s)"
| "point_ok mat (AtEntry r i e s) = in_row (nat (rows mat)) r s"
| "point_ok mat (AtWalk r i e c s) = (in_row (nat (rows mat)) r s \<and> c \<le> r)"
| "point_ok mat (Returned v) = True"
| "point_ok mat (Faulted f) = True"

text \<open>
  The part of the forest property that relates parents and tags, as the proofs carry it.
\<close>

definition visited_ok :: "nat \<Rightarrow> etree \<Rightarrow> bool" where
  "visited_ok k s \<longleftrightarrow>
     (\<forall>v < k. (parent s ! v = - 1 \<longrightarrow> tags s ! v = int v) \<and>
             (parent s ! v \<noteq> - 1 \<longrightarrow> parent s ! v \<le> tags s ! v))"

fun point_visited_ok :: "point \<Rightarrow> bool" where
  "point_visited_ok (AtRow r s) = visited_ok (nat r) s"
| "point_visited_ok (AtEntry r i e s) = visited_ok (nat r + 1) s"
| "point_visited_ok (AtWalk r i e c s) = visited_ok (nat r + 1) s"
| "point_visited_ok (Returned v) = True"
| "point_visited_ok (Faulted f) = True"

text \<open>
  Counting. \<open>untagged r s\<close> is the number of nodes below \<open>r\<close> not yet tagged \<open>r\<close>.
  \<open>lower_entries mat r\<close> is the number of distinct columns below the diagonal stored in
  row \<open>r\<close>, and \<open>sym_nnz mat\<close> the nonzero count of the full symmetric form of the
  pattern: its stored diagonal entries plus both copies of each entry below the diagonal.
\<close>

definition untagged :: "int \<Rightarrow> etree \<Rightarrow> nat" where
  "untagged r s = card {v \<in> {0..<nat r}. tags s ! v \<noteq> r}"

definition lower_entries :: "csr \<Rightarrow> nat \<Rightarrow> nat" where
  "lower_entries mat r = card (set (filter (\<lambda>c. c < int r) (row_cols mat r)))"




text \<open>
  The count the sweep accumulates, before any wrap-around. \<open>runs_body p\<close> says that the
  step taken from \<open>p\<close> executes the body of the walk, that is, the statement \<open>nnz++\<close>;
  \<open>increments mat k\<close> is the number of times the first \<open>k\<close> steps of the call did.
\<close>

fun runs_body :: "point \<Rightarrow> bool" where
  "runs_body (AtWalk r i e c s) =
     (in_range c (tags s) \<and> tags s ! nat c \<noteq> r \<and>
      in_range c (parent s) \<and> in_range c (nonZerosPerCol s))"
| "runs_body (AtRow r s) = False"
| "runs_body (AtEntry r i e s) = False"
| "runs_body (Returned v) = False"
| "runs_body (Faulted f) = False"

definition increments :: "csr \<Rightarrow> nat \<Rightarrow> nat" where
  "increments mat k = length (filter (\<lambda>j. runs_body (point_after mat j)) [0..<k])"

text \<open>
  The invariants that relate \<open>increments\<close> to the configuration. \<open>counter_ok mat N p\<close>: after
  \<open>N\<close> increments the counter \<open>nnz\<close> holds \<open>N\<close> wrapped to \<open>int\<close>, and the value returned is
  \<open>2 * N + rows\<close> wrapped to \<open>int\<close>. \<open>tagged r s\<close> is the number of nodes below \<open>r\<close> tagged
  \<open>r\<close>. \<open>count_ok mat N p\<close>: \<open>N\<close> is at least the number of distinct entries below the
  diagonal in the rows done, plus the nodes tagged in the current row, and at most
  \<open>r * (r - 1) / 2\<close> plus the nodes tagged in the current row; and every entry of the
  current row already passed has its column tagged.
\<close>

fun counter_ok :: "csr \<Rightarrow> nat \<Rightarrow> point \<Rightarrow> bool" where
  "counter_ok mat N (AtRow r s) = (nnz s = to_int32 (int N))"
| "counter_ok mat N (AtEntry r i e s) = (nnz s = to_int32 (int N))"
| "counter_ok mat N (AtWalk r i e c s) = (nnz s = to_int32 (int N))"
| "counter_ok mat N (Returned v) = (v = to_int32 (2 * int N + rows mat))"
| "counter_ok mat N (Faulted f) = True"

definition tagged :: "int \<Rightarrow> etree \<Rightarrow> nat" where
  "tagged r s = card {v \<in> {0..<nat r}. tags s ! v = r}"

definition row_progress :: "csr \<Rightarrow> nat \<Rightarrow> int \<Rightarrow> int \<Rightarrow> int \<Rightarrow> etree \<Rightarrow> bool" where
  "row_progress mat N r i e s \<longleftrightarrow>
     r < rows mat \<and> e = row_ptr mat ! nat (r + 1) \<and> row_ptr mat ! nat r \<le> i \<and>
     (\<Sum>q = 0..<nat r. lower_entries mat q) + tagged r s \<le> N \<and>
     2 * int N \<le> r * (r - 1) + 2 * int (tagged r s) \<and>
     (\<forall>j. row_ptr mat ! nat r \<le> j \<and> j < i \<and> col_idx mat ! nat j < r
           \<longrightarrow> tags s ! nat (col_idx mat ! nat j) = r)"

fun count_ok :: "csr \<Rightarrow> nat \<Rightarrow> point \<Rightarrow> bool" where
  "count_ok mat N (AtRow r s) =
     ((\<Sum>q = 0..<nat r. lower_entries mat q) \<le> N \<and> 2 * int N \<le> r * (r - 1))"
| "count_ok mat N (AtEntry r i e s) = row_progress mat N r i e s"
| "count_ok mat N (AtWalk r i e c s) =
     (row_progress mat N r i e s \<and> i < e \<and>
      (tags s ! nat (col_idx mat ! nat i) = r \<or> c = col_idx mat ! nat i))"
| "count_ok mat N (Returned v) =
     ((\<Sum>q = 0..<nat (rows mat). lower_entries mat q) \<le> N \<and>
      2 * int N \<le> rows mat * (rows mat - 1))"
| "count_ok mat N (Faulted f) = True"
text \<open>
  Fully dense patterns. \<open>dense_rows mat\<close>: the pattern is well formed and every row \<open>r\<close>
  stores every column below \<open>r\<close>, in any order and whatever else it stores; this is what
  a relabeling leaves of a fully dense matrix. \<open>dense_csr n\<close> is the fully dense
  lower-triangular pattern of order \<open>n\<close> itself: row \<open>r\<close> stores the columns \<open>0, ..., r\<close>.
\<close>

definition dense_rows :: "csr \<Rightarrow> bool" where
  "dense_rows mat \<longleftrightarrow>
     well_formed mat \<and>
     (\<forall>r \<in> {0..<nat (rows mat)}. \<forall>c \<in> {0..<r}. int c \<in> set (row_cols mat r))"

text \<open>
  For the count only column 0 matters: \<open>column0_rows mat\<close> asks that every row below the
  first stores column 0. \<open>arrow_csr n\<close> is the sparsest symmetric pattern that does, the
  arrowhead matrix: row 0 stores every column, row \<open>r > 0\<close> stores the columns 0 and \<open>r\<close>.
\<close>

definition column0_rows :: "csr \<Rightarrow> bool" where
  "column0_rows mat \<longleftrightarrow>
     well_formed mat \<and> (\<forall>r \<in> {1..<nat (rows mat)}. 0 \<in> set (row_cols mat r))"

definition arrow_csr :: "nat \<Rightarrow> csr" where
  "arrow_csr n =
     \<lparr>rows = int n,
      row_ptr = 0 # map (\<lambda>r. int (n + 2 * r)) [0..<n],
      col_idx = map int [0..<n] @ concat (map (\<lambda>k. [0, int k + 1]) [0..<n - 1])\<rparr>"

primrec triangle :: "nat \<Rightarrow> nat" where
  "triangle 0 = 0"
| "triangle (Suc n) = triangle n + Suc n"

definition dense_row_cols :: "nat \<Rightarrow> int list" where
  "dense_row_cols r = map int [0..<r + 1]"

definition dense_csr :: "nat \<Rightarrow> csr" where
  "dense_csr n =
     \<lparr>rows = int n,
      row_ptr = map (\<lambda>r. int (triangle r)) [0..<n + 1],
      col_idx = concat (map dense_row_cols [0..<n])\<rparr>"

text \<open>
  The state of the sweep on a dense pattern. Within row \<open>r\<close>, with a walk that started
  at \<open>c0\<close> and stands at \<open>c\<close>: the nodes tagged \<open>r\<close> are those from \<open>m\<close> up and those of
  \<open>[c0, c)\<close>, the tree is the chain \<open>v \<rightarrow> v + 1\<close>, and \<open>nnz\<close> has counted the rows
  before \<open>r\<close> in full and the tagged nodes below \<open>r\<close>. Between rows: the chain ends at
  \<open>r - 1\<close> and \<open>nnz = r (r - 1) / 2\<close>.
\<close>

definition dense_walk :: "nat \<Rightarrow> int \<Rightarrow> int \<Rightarrow> int \<Rightarrow> int \<Rightarrow> etree \<Rightarrow> bool" where
  "dense_walk N r m c0 c s \<longleftrightarrow>
     in_row N r s \<and> 0 \<le> c0 \<and> c0 \<le> c \<and> c \<le> m \<and> m \<le> r \<and>
     (\<forall>v < nat r + 1. (tags s ! v = r) = (c0 \<le> int v \<and> int v < c \<or> m \<le> int v)) \<and>
     (\<forall>v. int v + 1 < r \<longrightarrow> parent s ! v = int v + 1) \<and>
     (0 < r \<longrightarrow> parent s ! nat (r - 1) = (if tags s ! nat (r - 1) = r then r else - 1)) \<and>
     parent s ! nat r = - 1 \<and>
     2 * nnz s = r * (r - 1) + 2 * (r - m) + 2 * (c - c0)"

definition dense_between :: "nat \<Rightarrow> int \<Rightarrow> etree \<Rightarrow> bool" where
  "dense_between N r s \<longleftrightarrow>
     0 \<le> r \<and> etree_ok N (nat r) (r - 1) s \<and>
     (\<forall>v < nat r. tags s ! v = r - 1) \<and>
     (\<forall>v. int v + 1 < r \<longrightarrow> parent s ! v = int v + 1) \<and>
     (0 < r \<longrightarrow> parent s ! nat (r - 1) = - 1) \<and>
     2 * nnz s = r * (r - 1)"


text \<open>
  Patterns that store nothing below the diagonal: \<open>upper_rows mat\<close> asks that every column
  stored in row \<open>r\<close> is at least \<open>r\<close>. \<open>diag_csr n\<close> is the diagonal pattern of order \<open>n\<close>:
  row \<open>r\<close> stores the column \<open>r\<close> only.
\<close>

definition upper_rows :: "csr \<Rightarrow> bool" where
  "upper_rows mat \<longleftrightarrow>
     well_formed mat \<and>
     (\<forall>r \<in> {0..<nat (rows mat)}. \<forall>c \<in> set (row_cols mat r). int r \<le> c)"

definition diag_csr :: "nat \<Rightarrow> csr" where
  "diag_csr n = \<lparr>rows = int n, row_ptr = map int [0..<n + 1], col_idx = map int [0..<n]\<rparr>"
section \<open>Facts about the machine integers\<close>

lemma to_int32_id: "- 2147483648 \<le> x \<Longrightarrow> x \<le> 2147483647 \<Longrightarrow> to_int32 x = x"
  by (simp add: to_int32_def)

section \<open>The permutation validator\<close>

lemma check_sorted_from:
  "0 \<le> i \<Longrightarrow> T (int (length p)) = int (length p) \<Longrightarrow>
   check_sorted T i p = Inr (\<forall>j. nat i \<le> j \<and> j < length p \<longrightarrow> p ! j = int j)"
proof (induction T i p rule: check_sorted.induct)
  case (1 T i p)
  note b = "1.prems"(2)
  show ?case
  proof (cases "i < int (length p)")
    case False
    then show ?thesis using b by (subst check_sorted.simps) auto
  next
    case True
    then have r: "in_range i p" using "1.prems" by (simp add: in_range_def)
    show ?thesis
    proof (cases "i = p ! nat i")
      case False
      then have "\<not> (\<forall>j. nat i \<le> j \<and> j < length p \<longrightarrow> p ! j = int j)"
        using True "1.prems" by (auto intro!: exI[of _ "nat i"])
      then show ?thesis using True b r False by (subst check_sorted.simps) simp
    next
      case eq: True
      have ih: "check_sorted T (i + 1) p =
                Inr (\<forall>j. nat (i + 1) \<le> j \<and> j < length p \<longrightarrow> p ! j = int j)"
        using "1.IH" True b r eq "1.prems" by simp
      have "(\<forall>j. nat (i + 1) \<le> j \<and> j < length p \<longrightarrow> p ! j = int j) =
            (\<forall>j. nat i \<le> j \<and> j < length p \<longrightarrow> p ! j = int j)"
      proof -
        have "\<And>j. nat i \<le> j \<longleftrightarrow> j = nat i \<or> nat (i + 1) \<le> j"
          using "1.prems" by auto
        then show ?thesis using eq "1.prems" by (metis nat_0_le)
      qed
      then show ?thesis using True b r eq ih by (subst check_sorted.simps) simp
    qed
  qed
qed

lemma identity_list_iff:
  "(\<forall>j. j < length p \<longrightarrow> p ! j = int j) \<longleftrightarrow> p = map int [0..<length p]"
proof
  assume h: "\<forall>j. j < length p \<longrightarrow> p ! j = int j"
  show "p = map int [0..<length p]"
    by (rule nth_equalityI) (simp_all add: h)
next
  assume h: "p = map int [0..<length p]"
  show "\<forall>j. j < length p \<longrightarrow> p ! j = int j"
  proof (intro allI impI)
    fix j assume "j < length p"
    then have "map int [0..<length p] ! j = int j" by simp
    then show "p ! j = int j" using h by simp
  qed
qed

lemma check_sorted_0:
  "T (int (length p)) = int (length p) \<Longrightarrow>
   check_sorted T 0 p = Inr (p = map int [0..<length p])"
  using check_sorted_from[of 0 T p] by (simp add: identity_list_iff)

lemma is_unique_permutation_result:
  assumes "sz \<le> length (h_permute m)" and "T (int sz) = int sz"
  shows "fst (is_unique_permutation T sz m)
         = Inr (sort (take sz (h_permute m)) = map int [0..<sz])"
proof -
  have len: "length (sort (take sz (h_permute m))) = sz"
    using assms(1) by simp
  show ?thesis
    using assms check_sorted_0[of T "sort (take sz (h_permute m))"] len
    by (simp add: is_unique_permutation_def Let_def)
qed

lemma sorted_identity_distinct:
  assumes "sort xs = map int [0..<n]"
  shows "distinct xs" and "set xs = int ` {0..<n}"
proof -
  have "distinct (sort xs)"
    by (simp add: assms distinct_map)
  then show "distinct xs" by simp
  have "set (sort xs) = int ` {0..<n}"
    by (simp add: assms)
  then show "set xs = int ` {0..<n}" by simp
qed

text \<open>
  Where the count is not representable in \<open>T\<close> and its conversion is not positive, the
  loop body never runs and every array is accepted: for \<open>T = int\<close>, at \<open>2^31\<close> elements.
\<close>

lemma is_unique_permutation_wraps:
  assumes "sz \<le> length (h_permute m)" and "T (int sz) \<le> 0"
  shows "fst (is_unique_permutation T sz m) = Inr True"
proof -
  define p where "p = sort (take sz (h_permute m))"
  have len: "length p = sz"
    using assms(1) by (simp add: p_def)
  have "check_sorted T 0 p = Inr True"
    using assms(2) by (subst check_sorted.simps) (simp add: len)
  then show ?thesis
    using assms(1) by (simp add: is_unique_permutation_def Let_def p_def)
qed

lemma is_unique_permutation_int_wraps:
  assumes "2147483648 \<le> length (h_permute m)"
  shows "fst (is_unique_permutation to_int32 2147483648 m) = Inr True"
  using assms by (intro is_unique_permutation_wraps) (simp_all add: to_int32_def)

text \<open>
  C2, as the code has it. The function is handed a pointer and a count, not an array with a
  length: it reads the first \<open>size\<close> elements behind the pointer, whatever follows them.
  For a buffer holding at least \<open>size\<close> elements, and \<open>size\<close> representable in \<open>T\<close>, it
  returns true if and only if sorting those first \<open>size\<close> elements yields
  \<open>[0, 1, ..., size - 1]\<close>; in particular it returns false when they contain a duplicate
  or a value outside \<open>[0, size)\<close>.
\<close>

theorem is_unique_permutation_iff_sorted_prefix:
  assumes "sz \<le> length (h_permute m)" and "T (int sz) = int sz"
  shows "fst (is_unique_permutation T sz m)
           = Inr (sort (take sz (h_permute m)) = map int [0..<sz]) \<and>
         (\<not> distinct (take sz (h_permute m)) \<longrightarrow>
            fst (is_unique_permutation T sz m) = Inr False) \<and>
         ((\<exists>x \<in> set (take sz (h_permute m)). x < 0 \<or> int sz \<le> x) \<longrightarrow>
            fst (is_unique_permutation T sz m) = Inr False)"
proof (intro conjI impI)
  show r: "fst (is_unique_permutation T sz m)
           = Inr (sort (take sz (h_permute m)) = map int [0..<sz])"
    using assms by (rule is_unique_permutation_result)
  show "fst (is_unique_permutation T sz m) = Inr False"
    if "\<not> distinct (take sz (h_permute m))"
    using that r sorted_identity_distinct(1)[of "take sz (h_permute m)" sz] by auto
  show "fst (is_unique_permutation T sz m) = Inr False"
    if "\<exists>x \<in> set (take sz (h_permute m)). x < 0 \<or> int sz \<le> x"
    using that r sorted_identity_distinct(2)[of "take sz (h_permute m)" sz] by auto
qed

theorem is_unique_permutation_iff_sorted_prefix_witness:
  "fst (is_unique_permutation to_int32 3 \<lparr>h_permute = [2, 0, 1], permute = []\<rparr>) = Inr True \<and>
   fst (is_unique_permutation to_int32 3 \<lparr>h_permute = [2, 0, 2], permute = []\<rparr>) = Inr False \<and>
   fst (is_unique_permutation to_int32 3 \<lparr>h_permute = [2, 0, 3], permute = []\<rparr>) = Inr False"
  using is_unique_permutation_iff_sorted_prefix
      [of 3 "\<lparr>h_permute = [2, 0, 1], permute = []\<rparr>" to_int32]
    is_unique_permutation_iff_sorted_prefix
      [of 3 "\<lparr>h_permute = [2, 0, 2], permute = []\<rparr>" to_int32]
    is_unique_permutation_iff_sorted_prefix
      [of 3 "\<lparr>h_permute = [2, 0, 3], permute = []\<rparr>" to_int32]
  by (simp add: to_int32_def eval_nat_numeral)

text \<open>
  C2 as stated fails: an array of four elements, passed with \<open>size = 3\<close>, has the wrong
  length and is accepted, because its first three elements are a permutation of
  \<open>0, 1, 2\<close>.
\<close>

theorem is_unique_permutation_wrong_length_accepted:
  "fst (is_unique_permutation to_int32 3 \<lparr>h_permute = [0, 2, 1, 7], permute = []\<rparr>) = Inr True \<and>
   length [0, 2, 1, 7 :: int] \<noteq> 3 \<and>
   sort [0, 2, 1, 7 :: int] \<noteq> [0, 1, 2]"
  using is_unique_permutation_result[of 3 "\<lparr>h_permute = [0, 2, 1, 7], permute = []\<rparr>" to_int32]
  by (simp add: to_int32_def eval_nat_numeral)

section \<open>The factorization oracle\<close>

lemma copy_permutation_keeps_h_permute:
  "copy_permutation i n m = Inr m' \<Longrightarrow> h_permute_vec m' = h_permute_vec m"
proof (induction i n m rule: copy_permutation.induct)
  case (1 i n m)
  show ?case
  proof (cases "i < n")
    case False
    with "1.prems" show ?thesis by (subst (asm) copy_permutation.simps) simp
  next
    case True
    from "1.prems" True
    have r: "\<not> (\<not> in_range i (h_permute_vec m) \<or> \<not> in_range i (perm_indices m))"
      by (subst (asm) copy_permutation.simps) (simp split: if_splits)
    from "1.prems" True r
    have "copy_permutation (i + 1) n
            (m\<lparr>perm_indices := (perm_indices m)[nat i := h_permute_vec m ! nat i]\<rparr>) = Inr m'"
      by (subst (asm) copy_permutation.simps) (simp split: if_splits)
    from "1.IH"[OF True r this] show ?thesis by simp
  qed
qed

lemma copy_permutation_from:
  "0 \<le> i \<Longrightarrow> i \<le> n \<Longrightarrow> int (length (h_permute_vec m)) = n \<Longrightarrow>
   length (perm_indices m) = length (h_permute_vec m) \<Longrightarrow>
   copy_permutation i n m =
     Inr (m\<lparr>perm_indices := take (nat i) (perm_indices m) @ drop (nat i) (h_permute_vec m)\<rparr>)"
proof (induction i n m rule: copy_permutation.induct)
  case (1 i n m)
  show ?case
  proof (cases "i < n")
    case False
    with "1.prems" have "i = n" by simp
    with "1.prems" show ?thesis by (subst copy_permutation.simps) simp
  next
    case True
    let ?m = "m\<lparr>perm_indices := (perm_indices m)[nat i := h_permute_vec m ! nat i]\<rparr>"
    have r: "in_range i (h_permute_vec m)" "in_range i (perm_indices m)"
      using True "1.prems" by (auto simp: in_range_def)
    have lt: "nat i < length (h_permute_vec m)"
      using True "1.prems" by (simp add: nat_less_iff)
    have ih: "copy_permutation (i + 1) n ?m =
       Inr (?m\<lparr>perm_indices :=
              take (nat (i + 1)) (perm_indices ?m) @ drop (nat (i + 1)) (h_permute_vec ?m)\<rparr>)"
      using "1.IH" r True "1.prems" by simp
    have n1: "nat (i + 1) = Suc (nat i)" using "1.prems" by simp
    have "take (Suc (nat i)) ((perm_indices m)[nat i := h_permute_vec m ! nat i])
            @ drop (Suc (nat i)) (h_permute_vec m)
          = take (nat i) (perm_indices m) @ drop (nat i) (h_permute_vec m)"
      using lt "1.prems"(4) by (simp add: take_Suc_conv_app_nth Cons_nth_drop_Suc)
    then show ?thesis using ih r True n1 by (subst copy_permutation.simps) simp
  qed
qed

lemma copy_permutation_0:
  "int (length hp) = n \<Longrightarrow>
   copy_permutation 0 n \<lparr>h_permute_vec = hp, perm_indices = replicate (nat n) 0\<rparr>
     = Inr \<lparr>h_permute_vec = hp, perm_indices = hp\<rparr>"
  using copy_permutation_from[of 0 n "\<lparr>h_permute_vec = hp, perm_indices = replicate (nat n) 0\<rparr>"]
  by auto

text \<open>The oracle once the \<open>assert\<close> holds: the copy loop hands \<open>h_permute\<close> on as it is.\<close>

lemma count_nnz_fillin_eigen_asserted:
  assumes "int (length h_perm) = e_rows eigen_mat"
  shows "count_nnz_fillin_eigen permute_symm compute eigen_mat h_perm st w =
     (let permuted_mat = permute_symm eigen_mat h_perm;
          w1 = exportToPlainText permuted_mat (st @ ''.txt'') w;
          solver = compute permuted_mat;
          w2 = w1\<lparr>factorizations := factorizations w1 + 1\<rparr>
      in
        if info solver \<noteq> Success then
          (Inr (- 1),
           w2\<lparr>diagnostics := diagnostics w2 @
              [RxmeshError
                ''post_chol_factorization_nnz(): Cholesky decomposition with reorder failed with code {}''
                (info solver)]\<rparr>,
           h_perm)
        else
          let lower_mat = matrixL solver;
              lower_nnz = to_int32 (nonZeros lower_mat - e_rows lower_mat)
          in (Inr (to_int32 (to_int32 (2 * lower_nnz) + e_rows lower_mat)), w2, h_perm))"
  using assms copy_permutation_0[of h_perm "e_rows eigen_mat"]
  by (simp add: count_nnz_fillin_eigen_def Let_def)

lemma sum_list_countdown: "2 * sum_list (map (\<lambda>c. n - c) [0..<n]) = n * (n + 1)"
proof -
  have "sum_list (map (\<lambda>c. n - c) [0..<n]) = (\<Sum>c = 0..<n. n - c)"
    by (simp add: interv_sum_list_conv_sum_set_nat)
  also have "\<dots> = (\<Sum>c = 0..<n. Suc c)"
    by (rule sum.reindex_bij_witness[where i="\<lambda>k. n - Suc k" and j="\<lambda>c. n - Suc c"]) auto
  also have "2 * \<dots> = n * (n + 1)"
    by (induction n) auto
  finally show ?thesis .
qed

lemma nonZeros_dense_lower: "2 * nonZeros (dense_lower n) = int n * (int n + 1)"
proof -
  have "length (e_entries (dense_lower n)) = sum_list (map (\<lambda>c. n - c) [0..<n])"
    by (simp add: dense_lower_def length_concat comp_def)
  then have "2 * length (e_entries (dense_lower n)) = n * (n + 1)"
    using sum_list_countdown[of n] by simp
  then have "int (2 * length (e_entries (dense_lower n))) = int (n * (n + 1))" by simp
  then show ?thesis by (simp add: nonZeros_def algebra_simps)
qed

lemma e_rows_dense_lower: "e_rows (dense_lower n) = int n"
  by (simp add: dense_lower_def)

lemma count_nnz_fillin_eigen_value:
  assumes "int (length h_perm) = e_rows eigen_mat"
    and "info (compute (permute_symm eigen_mat h_perm)) = Success"
    and "matrixL (compute (permute_symm eigen_mat h_perm)) = L"
    and "e_rows L = e_rows eigen_mat"
    and "e_rows L \<le> nonZeros L"
    and "2 * (nonZeros L - e_rows L) + e_rows L \<le> INT_MAX"
  shows "fst (count_nnz_fillin_eigen permute_symm compute eigen_mat h_perm st w)
         = Inr (2 * (nonZeros L - e_rows eigen_mat) + e_rows eigen_mat)"
proof -
  have n0: "0 \<le> e_rows L" using assms(1,4) by simp
  have a: "to_int32 (nonZeros L - e_rows L) = nonZeros L - e_rows L"
    using assms(5,6) n0 by (intro to_int32_id) (simp_all add: INT_MAX_def)
  have b: "to_int32 (2 * (nonZeros L - e_rows L)) = 2 * (nonZeros L - e_rows L)"
    using assms(5,6) n0 by (intro to_int32_id) (simp_all add: INT_MAX_def)
  have c: "to_int32 (2 * (nonZeros L - e_rows L) + e_rows L)
           = 2 * (nonZeros L - e_rows L) + e_rows L"
    using assms(5,6) n0 by (intro to_int32_id) (simp_all add: INT_MAX_def)
  show ?thesis
    using assms(2,3,4) a b c
    by (simp add: count_nnz_fillin_eigen_asserted[OF assms(1)] Let_def)
qed

text \<open>
  C3, as the code has it. When the \<open>assert\<close> holds and the factorization succeeds with
  lower factor \<open>L\<close> of the matrix's order \<open>n\<close>, holding at least its \<open>n\<close> diagonal entries,
  and \<open>2 * (nnz(L) - n) + n\<close> is within the range of \<open>int\<close>, the oracle returns exactly
  \<open>2 * (nnz(L) - n) + n\<close>.
\<close>

theorem count_nnz_fillin_eigen_success:
  assumes "int (length h_perm) = e_rows eigen_mat"
    and "info (compute (permute_symm eigen_mat h_perm)) = Success"
    and "matrixL (compute (permute_symm eigen_mat h_perm)) = L"
    and "e_rows L = e_rows eigen_mat"
    and "e_rows L \<le> nonZeros L"
    and "2 * (nonZeros L - e_rows L) + e_rows L \<le> INT_MAX"
  shows "fst (count_nnz_fillin_eigen permute_symm compute eigen_mat h_perm st w)
         = Inr (2 * (nonZeros L - e_rows eigen_mat) + e_rows eigen_mat)"
  using assms by (rule count_nnz_fillin_eigen_value)

theorem count_nnz_fillin_eigen_success_witness:
  "fst (count_nnz_fillin_eigen (\<lambda>m p. dense_full 2)
          (\<lambda>m. \<lparr>info = Success, matrixL = dense_lower 2\<rparr>)
          (dense_lower 2) [1, 0] ''fill'' (fresh_world :: (unit, nat) world))
   = Inr 4 \<and> nonZeros (dense_lower 2) = 3"
  using count_nnz_fillin_eigen_success[of "[1, 0]" "dense_lower 2"
      "\<lambda>m. \<lparr>info = Success, matrixL = dense_lower 2\<rparr>" "\<lambda>m p. dense_full 2" "dense_lower 2"
      "''fill''" "fresh_world :: (unit, nat) world"]
    nonZeros_dense_lower[of 2]
  by (simp add: e_rows_dense_lower INT_MAX_def)

text \<open>
  C3 as stated fails where the count leaves the range of \<open>int\<close>: for a dense lower factor
  of order 46341, with 1073767311 stored entries, \<open>2 * (nnz(L) - n) + n\<close> is 2147488281
  and the value returned is negative.
\<close>

theorem count_nnz_fillin_eigen_overflow:
  "fst (count_nnz_fillin_eigen (\<lambda>m p. dense_full 46341)
          (\<lambda>m. \<lparr>info = Success, matrixL = dense_lower 46341\<rparr>)
          (dense_lower 46341) (map int [0..<46341]) ''fill'' (fresh_world :: (unit, nat) world))
   = Inr (- 2147479015) \<and>
   2 * (nonZeros (dense_lower 46341) - 46341) + 46341 = 2147488281"
proof -
  have nz: "nonZeros (dense_lower 46341) = 1073767311"
    using nonZeros_dense_lower[of 46341] by simp
  have len: "int (length (map int [0..<46341])) = e_rows (dense_lower 46341)"
    by (simp add: e_rows_dense_lower)
  show ?thesis
    by (simp add: count_nnz_fillin_eigen_asserted[OF len] Let_def nz e_rows_dense_lower
        to_int32_def)
qed

text \<open>
  C4. When the \<open>assert\<close> holds and the factorization reports a failure code, the oracle
  returns \<open>-1\<close> (a value, not a fault), the diagnostics it adds after the export are
  exactly one \<open>RXMESH_ERROR\<close> carrying that code, and it has asked for one factorization
  only.
\<close>

theorem count_nnz_fillin_eigen_failure:
  assumes "int (length h_perm) = e_rows eigen_mat"
    and "info (compute (permute_symm eigen_mat h_perm)) = Failure code"
  shows "fst (count_nnz_fillin_eigen permute_symm compute eigen_mat h_perm st w) = Inr (- 1) \<and>
     diagnostics (fst (snd (count_nnz_fillin_eigen permute_symm compute eigen_mat h_perm st w)))
       = diagnostics (exportToPlainText (permute_symm eigen_mat h_perm) (st @ ''.txt'') w) @
         [RxmeshError
            ''post_chol_factorization_nnz(): Cholesky decomposition with reorder failed with code {}''
            (Failure code)] \<and>
     factorizations (fst (snd (count_nnz_fillin_eigen permute_symm compute eigen_mat h_perm st w)))
       = factorizations w + 1"
  using assms(2)
  by (simp add: count_nnz_fillin_eigen_asserted[OF assms(1)] Let_def exportToPlainText_def)

theorem count_nnz_fillin_eigen_failure_witness:
  "fst (count_nnz_fillin_eigen (\<lambda>m p. dense_full 1)
          (\<lambda>m. \<lparr>info = Failure (1 :: nat), matrixL = dense_lower 0\<rparr>)
          (dense_lower 1) [0] ''fill'' fresh_world) = Inr (- 1) \<and>
   diagnostics (fst (snd (count_nnz_fillin_eigen (\<lambda>m p. dense_full 1)
          (\<lambda>m. \<lparr>info = Failure (1 :: nat), matrixL = dense_lower 0\<rparr>)
          (dense_lower 1) [0] ''fill'' fresh_world)))
     = [RxmeshError
          ''post_chol_factorization_nnz(): Cholesky decomposition with reorder failed with code {}''
          (Failure 1)] \<and>
   factorizations (fst (snd (count_nnz_fillin_eigen (\<lambda>m p. dense_full 1)
          (\<lambda>m. \<lparr>info = Failure (1 :: nat), matrixL = dense_lower 0\<rparr>)
          (dense_lower 1) [0] ''fill'' fresh_world))) = 1"
  using count_nnz_fillin_eigen_failure[of "[0]" "dense_lower 1"
      "\<lambda>m. \<lparr>info = Failure (1 :: nat), matrixL = dense_lower 0\<rparr>" "\<lambda>m p. dense_full 1" 1
      "''fill''" fresh_world]
  by (simp add: e_rows_dense_lower exportToPlainText_def fresh_world_def)

text \<open>
  C8. If the export path cannot be opened, \<open>exportToPlainText\<close> adds one line to
  \<open>std::cerr\<close> and changes nothing else, the oracle leaves every file as it was, and the
  value the oracle returns is the one it returns in a world where the path opens.
\<close>

theorem export_failure_keeps_fill_count:
  assumes "\<not> openable w (st @ ''.txt'')" and "openable w' (st @ ''.txt'')"
  shows "exportToPlainText mat (st @ ''.txt'') w
           = w\<lparr>diagnostics := diagnostics w @ [Cerr (''Error opening file: '' @ st @ ''.txt'')]\<rparr> \<and>
         files (fst (snd (count_nnz_fillin_eigen permute_symm compute eigen_mat h_perm st w)))
           = files w \<and>
         fst (count_nnz_fillin_eigen permute_symm compute eigen_mat h_perm st w)
           = fst (count_nnz_fillin_eigen permute_symm compute eigen_mat h_perm st w')"
  using assms
  by (auto simp: count_nnz_fillin_eigen_def exportToPlainText_def Let_def split: sum.splits)

theorem export_failure_keeps_fill_count_witness:
  "fst (count_nnz_fillin_eigen (\<lambda>m p. dense_full 2)
          (\<lambda>m. \<lparr>info = Success, matrixL = dense_lower 2\<rparr>)
          (dense_lower 2) [1, 0] ''fill''
          ((fresh_world :: (unit, nat) world)\<lparr>openable := (\<lambda>f. f \<noteq> ''fill.txt'')\<rparr>))
   = fst (count_nnz_fillin_eigen (\<lambda>m p. dense_full 2)
          (\<lambda>m. \<lparr>info = Success, matrixL = dense_lower 2\<rparr>)
          (dense_lower 2) [1, 0] ''fill'' (fresh_world :: (unit, nat) world)) \<and>
   files (fst (snd (count_nnz_fillin_eigen (\<lambda>m p. dense_full 2)
          (\<lambda>m. \<lparr>info = Success, matrixL = dense_lower 2\<rparr>)
          (dense_lower 2) [1, 0] ''fill''
          ((fresh_world :: (unit, nat) world)\<lparr>openable := (\<lambda>f. f \<noteq> ''fill.txt'')\<rparr>))))
     ''fill.txt'' = None"
  using export_failure_keeps_fill_count[of
      "(fresh_world :: (unit, nat) world)\<lparr>openable := (\<lambda>f. f \<noteq> ''fill.txt'')\<rparr>" "''fill''"
      "fresh_world :: (unit, nat) world" "dense_full 2" "\<lambda>m p. dense_full 2"
      "\<lambda>m. \<lparr>info = Success, matrixL = dense_lower 2\<rparr>" "dense_lower 2" "[1, 0]"]
  by (simp add: fresh_world_def)

text \<open>
  C9. Neither the validator nor the oracle changes the caller's permutation array: after
  the call it holds what it held before, whatever the input and whatever the outcome.
\<close>

theorem permutation_array_unchanged:
  "h_permute (snd (is_unique_permutation T sz m)) = h_permute m \<and>
   snd (snd (count_nnz_fillin_eigen permute_symm compute eigen_mat h_perm st w)) = h_perm"
  by (auto simp: is_unique_permutation_def count_nnz_fillin_eigen_def Let_def
      split: sum.splits dest: copy_permutation_keeps_h_permute)

theorem permutation_array_unchanged_witness:
  "h_permute (snd (is_unique_permutation to_int32 3 \<lparr>h_permute = [2, 0, 1], permute = []\<rparr>))
     = [2, 0, 1] \<and>
   snd (snd (count_nnz_fillin_eigen (\<lambda>m p. dense_full 2)
          (\<lambda>m. \<lparr>info = Success, matrixL = dense_lower 2\<rparr>)
          (dense_lower 2) [1, 0] ''fill'' (fresh_world :: (unit, nat) world))) = [1, 0]"
  using permutation_array_unchanged[of to_int32 3 "\<lparr>h_permute = [2, 0, 1], permute = []\<rparr>"
      "\<lambda>m p. dense_full 2" "\<lambda>m. \<lparr>info = Success, matrixL = dense_lower 2\<rparr>"
      "dense_lower 2" "[1, 0]" "''fill''" "fresh_world :: (unit, nat) world"]
  by simp

section \<open>The elimination-tree counter: the invariant of the sweep\<close>

lemma row_init_fields:
  "parent (row_init r s) = (parent s)[nat r := - 1]"
  "tags (row_init r s) = (tags s)[nat r := r]"
  "nonZerosPerCol (row_init r s) = (nonZerosPerCol s)[nat r := 0]"
  "nnz (row_init r s) = nnz s"
  by (simp_all add: row_init_def Let_def)

lemma walk_body_fields:
  "parent (walk_body r c s) =
     (if parent s ! nat c = - 1 then (parent s)[nat c := r] else parent s)"
  "tags (walk_body r c s) = (tags s)[nat c := r]"
  "nonZerosPerCol (walk_body r c s) =
     (nonZerosPerCol s)[nat c := to_int32 (nonZerosPerCol s ! nat c + 1)]"
  "nnz (walk_body r c s) = to_int32 (nnz s + 1)"
  by (simp_all add: walk_body_def Let_def)

lemma etree_ok_mono: "etree_ok N k b s \<Longrightarrow> b \<le> b' \<Longrightarrow> etree_ok N k b' s"
  by (fastforce simp: etree_ok_def)

lemma in_row_after_init:
  assumes "0 \<le> r" and "r < int N" and "etree_ok N (nat r) (r - 1) s"
  shows "in_row N r (row_init r s)"
proof -
  have lens: "length (parent s) = N" "length (tags s) = N" "length (nonZerosPerCol s) = N"
    using assms(3) by (simp_all add: etree_ok_def)
  have rN: "nat r < N" using assms(1,2) by (simp add: nat_less_iff)
  have old: "\<And>v. v < nat r \<Longrightarrow>
      (parent s ! v = - 1 \<or> int v < parent s ! v) \<and> parent s ! v \<le> r \<and> tags s ! v \<le> r"
    using assms(3) by (fastforce simp: etree_ok_def)
  have "(parent (row_init r s) ! v = - 1 \<or> int v < parent (row_init r s) ! v) \<and>
        parent (row_init r s) ! v \<le> r \<and> tags (row_init r s) ! v \<le> r"
    if "v < nat r + 1" for v
  proof (cases "v = nat r")
    case True
    then show ?thesis using rN lens assms(1) by (simp add: row_init_fields)
  next
    case False
    then have "v < nat r" using that by simp
    then show ?thesis using old[of v] False by (simp add: row_init_fields)
  qed
  then show ?thesis
    using rN lens assms(1) by (simp add: in_row_def etree_ok_def row_init_fields)
qed

lemma in_row_after_body:
  assumes "in_row N r s" and "0 \<le> c" and "c < r"
  shows "in_row N r (walk_body r c s)"
    and "c < parent (walk_body r c s) ! nat c"
    and "parent (walk_body r c s) ! nat c \<le> r"
proof -
  have lens: "length (parent s) = N" "length (tags s) = N" "length (nonZerosPerCol s) = N"
    and rN: "nat r < N" and r0: "0 \<le> r" and tr: "tags s ! nat r = r"
    using assms(1) by (simp_all add: in_row_def etree_ok_def)
  have old: "\<And>v. v < nat r + 1 \<Longrightarrow>
      (parent s ! v = - 1 \<or> int v < parent s ! v) \<and> parent s ! v \<le> r \<and> tags s ! v \<le> r"
    using assms(1) by (simp add: in_row_def etree_ok_def)
  have cN: "nat c < N" and cr: "nat c < nat r" and cne: "nat c \<noteq> nat r"
    using assms(2,3) rN by simp_all
  have "(parent (walk_body r c s) ! v = - 1 \<or> int v < parent (walk_body r c s) ! v) \<and>
        parent (walk_body r c s) ! v \<le> r \<and> tags (walk_body r c s) ! v \<le> r"
    if "v < nat r + 1" for v
  proof (cases "v = nat c")
    case True
    then show ?thesis
      using old[of v] that cN lens assms(2,3) by (auto simp: walk_body_fields)
  next
    case False
    then show ?thesis
      using old[of v] that by (auto simp: walk_body_fields)
  qed
  then show "in_row N r (walk_body r c s)"
    using rN lens r0 tr cne by (simp add: in_row_def etree_ok_def walk_body_fields)
  show "c < parent (walk_body r c s) ! nat c"
    using old[of "nat c"] cr cN lens assms(2,3) by (auto simp: walk_body_fields)
  show "parent (walk_body r c s) ! nat c \<le> r"
    using old[of "nat c"] cr cN lens assms(2,3) by (auto simp: walk_body_fields)
qed

lemma in_row_end:
  assumes "in_row N r s"
  shows "etree_ok N (nat (r + 1)) (r + 1 - 1) s" and "r + 1 \<le> int N"
proof -
  have "0 \<le> r" using assms by (simp add: in_row_def)
  then have "nat (r + 1) = nat r + 1" by simp
  then show "etree_ok N (nat (r + 1)) (r + 1 - 1) s"
    using assms by (simp add: in_row_def)
  have "nat r + 1 \<le> N"
    using assms by (simp add: in_row_def etree_ok_def)
  then show "r + 1 \<le> int N"
    using \<open>0 \<le> r\<close> by linarith
qed

lemma initial_etree_ok: "0 \<le> n \<Longrightarrow> etree_ok (nat n) 0 (- 1) (initial_etree n)"
  by (simp add: etree_ok_def initial_etree_def)

lemma point_ok_step:
  assumes "point_ok mat p"
  shows "point_ok mat (step mat p)"
proof (cases p)
  case (AtRow r s)
  then have ok: "0 \<le> r" "r \<le> rows mat" "etree_ok (nat (rows mat)) (nat r) (r - 1) s"
    using assms by simp_all
  show ?thesis
  proof (cases "r < rows mat")
    case True
    then have "r < int (nat (rows mat))" by simp
    from in_row_after_init[OF ok(1) this ok(3)]
    show ?thesis using AtRow by (simp add: Let_def)
  next
    case False
    then show ?thesis using AtRow by simp
  qed
next
  case (AtEntry r i e s)
  then have ok: "in_row (nat (rows mat)) r s" using assms by simp
  have r0: "0 \<le> r" using ok by (simp add: in_row_def)
  then have "r + 1 \<le> rows mat"
    using in_row_end(2)[OF ok] by linarith
  moreover have "0 \<le> r + 1" using r0 by simp
  ultimately show ?thesis
    using AtEntry ok in_row_end(1)[OF ok] by (simp add: Let_def)
next
  case (AtWalk r i e c s)
  then have ok: "in_row (nat (rows mat)) r s" and cr: "c \<le> r" using assms by simp_all
  show ?thesis
  proof (cases "in_range c (tags s) \<and> tags s ! nat c \<noteq> r \<and>
                in_range c (parent s) \<and> in_range c (nonZerosPerCol s)")
    case True
    then have c0: "0 \<le> c" and ne: "tags s ! nat c \<noteq> r" by (simp_all add: in_range_def)
    have "c \<noteq> r" using ne ok by (auto simp: in_row_def)
    then have lt: "c < r" using cr by simp
    from in_row_after_body[OF ok c0 lt] True
    show ?thesis using AtWalk by (simp add: Let_def)
  next
    case False
    then show ?thesis using AtWalk ok by auto
  qed
qed simp_all

lemma point_ok_start: "point_ok mat (start_point mat)"
  using initial_etree_ok[of "rows mat"] by (simp add: start_point_def)

lemma point_ok_after: "point_ok mat (point_after mat k)"
proof (induction k)
  case 0
  show ?case by (simp add: point_after_def point_ok_start)
next
  case (Suc k)
  then show ?case using point_ok_step[of mat "point_after mat k"]
    by (simp add: point_after_def)
qed

subsection \<open>Parents and tags\<close>

lemma point_visited_ok_step:
  assumes "point_ok mat p" and "point_visited_ok p"
  shows "point_visited_ok (step mat p)"
proof (cases p)
  case (AtRow r s)
  then have ok: "0 \<le> r" "r \<le> rows mat" "etree_ok (nat (rows mat)) (nat r) (r - 1) s"
    and vo: "visited_ok (nat r) s"
    using assms by simp_all
  show ?thesis
  proof (cases "r < rows mat")
    case True
    have lens: "nat r < length (parent s)" "nat r < length (tags s)"
      using ok True by (simp_all add: etree_ok_def)
    have "visited_ok (nat r + 1) (row_init r s)"
      unfolding visited_ok_def
    proof (intro allI impI)
      fix v assume "v < nat r + 1"
      then consider "v = nat r" | "v < nat r" by linarith
      then show "(parent (row_init r s) ! v = - 1 \<longrightarrow> tags (row_init r s) ! v = int v) \<and>
                 (parent (row_init r s) ! v \<noteq> - 1
                    \<longrightarrow> parent (row_init r s) ! v \<le> tags (row_init r s) ! v)"
      proof cases
        case 1
        then show ?thesis using lens ok(1) by (simp add: row_init_fields)
      next
        case 2
        then show ?thesis using vo by (simp add: row_init_fields visited_ok_def)
      qed
    qed
    then show ?thesis using AtRow by (simp add: Let_def)
  next
    case False
    then show ?thesis using AtRow by simp
  qed
next
  case (AtEntry r i e s)
  then have ok: "in_row (nat (rows mat)) r s" and vo: "visited_ok (nat r + 1) s"
    using assms by simp_all
  have "0 \<le> r" using ok by (simp add: in_row_def)
  then have "nat (r + 1) = nat r + 1" by simp
  then show ?thesis using AtEntry vo by (simp add: Let_def)
next
  case (AtWalk r i e c s)
  then have ok: "in_row (nat (rows mat)) r s" and cr: "c \<le> r"
    and vo: "visited_ok (nat r + 1) s"
    using assms by simp_all
  show ?thesis
  proof (cases "in_range c (tags s) \<and> tags s ! nat c \<noteq> r \<and>
                in_range c (parent s) \<and> in_range c (nonZerosPerCol s)")
    case True
    then have c0: "0 \<le> c" and ne: "tags s ! nat c \<noteq> r" by (simp_all add: in_range_def)
    have "c \<noteq> r" using ne ok by (auto simp: in_row_def)
    then have lt: "c < r" using cr by simp
    have cN: "nat c < length (parent s)" "nat c < length (tags s)"
      using True by (simp_all add: in_range_def nat_less_iff)
    have bound: "parent s ! nat c \<le> r"
      using ok lt c0 by (simp add: in_row_def etree_ok_def)
    have "visited_ok (nat r + 1) (walk_body r c s)"
      unfolding visited_ok_def
    proof (intro allI impI)
      fix v assume "v < nat r + 1"
      show "(parent (walk_body r c s) ! v = - 1 \<longrightarrow> tags (walk_body r c s) ! v = int v) \<and>
            (parent (walk_body r c s) ! v \<noteq> - 1
               \<longrightarrow> parent (walk_body r c s) ! v \<le> tags (walk_body r c s) ! v)"
      proof (cases "v = nat c")
        case True
        then show ?thesis using cN bound lt c0 by (auto simp: walk_body_fields)
      next
        case False
        then show ?thesis
          using vo \<open>v < nat r + 1\<close> by (auto simp: walk_body_fields visited_ok_def)
      qed
    qed
    then show ?thesis using AtWalk True by (simp add: Let_def)
  next
    case False
    then show ?thesis using AtWalk vo by auto
  qed
qed simp_all

lemma point_visited_ok_after: "point_visited_ok (point_after mat k)"
proof (induction k)
  case 0
  show ?case by (simp add: point_after_def start_point_def visited_ok_def)
next
  case (Suc k)
  then show ?case
    using point_visited_ok_step[OF point_ok_after, of mat k] by (simp add: point_after_def)
qed

lemma forest_from:
  assumes "etree_ok N k b s" and "visited_ok k s"
  shows "forest k b s"
  unfolding forest_def
proof
  fix v assume "v \<in> {0..<k}"
  then have v: "v < k" by simp
  have a: "parent s ! v = - 1 \<or> int v < parent s ! v" "tags s ! v \<le> b"
    using assms(1) v by (simp_all add: etree_ok_def)
  have b: "parent s ! v = - 1 \<longrightarrow> tags s ! v = int v"
    "parent s ! v \<noteq> - 1 \<longrightarrow> parent s ! v \<le> tags s ! v"
    using assms(2) v by (simp_all add: visited_ok_def)
  show "(parent s ! v = - 1 \<and> tags s ! v = int v) \<or>
        (int v < parent s ! v \<and> parent s ! v \<le> tags s ! v \<and> tags s ! v \<le> b)"
    using a b by auto
qed

lemma point_ok_sweep_invariant:
  assumes "point_ok mat p" and "point_visited_ok p"
  shows "sweep_invariant p"
proof (cases p)
  case (AtRow r s)
  then show ?thesis using assms by (auto intro: forest_from)
next
  case (AtEntry r i e s)
  then show ?thesis using assms by (auto simp: in_row_def intro: forest_from)
next
  case (AtWalk r i e c s)
  then have ok: "in_row (nat (rows mat)) r s" and cr: "c \<le> r"
    and vo: "visited_ok (nat r + 1) s"
    using assms by simp_all
  have "c < r" if "tags s ! nat c \<noteq> r"
    using that ok cr by (cases "c = r") (auto simp: in_row_def)
  moreover have "forest (nat r + 1) r s"
    using ok vo by (auto simp: in_row_def intro: forest_from)
  ultimately show ?thesis
    using AtWalk by simp
qed simp_all

subsection \<open>What a step does to the parents\<close>

lemma step_parents:
  assumes "point_ok mat p" and "point_visited_ok p"
  shows "parent_kept p (step mat p)" and "first_discovery p (step mat p)"
proof -
  have "parent_kept p (step mat p) \<and> first_discovery p (step mat p)"
  proof (cases p)
    case (AtRow r s)
    show ?thesis
    proof (cases "etree_at (step mat p)")
      case None
      then show ?thesis using AtRow by (simp add: parent_kept_def first_discovery_def)
    next
      case (Some s')
      then have s': "s' = row_init r s" and st: "step mat p = AtEntry r (row_ptr mat ! nat r)
          (row_ptr mat ! nat (r + 1)) (row_init r s)"
        using AtRow by (auto simp: Let_def split: if_splits)
      have "parent s' ! v = parent s ! v" if "v < nat r" for v
        using that by (simp add: s' row_init_fields)
      then show ?thesis
        using AtRow st s' by (simp add: parent_kept_def first_discovery_def)
    qed
  next
    case (AtEntry r i e s)
    then have "etree_at (step mat p) = None \<or> etree_at (step mat p) = Some s"
      by (auto simp: Let_def)
    then show ?thesis
      using AtEntry by (auto simp: parent_kept_def first_discovery_def)
  next
    case (AtWalk r i e c s)
    then have ok: "in_row (nat (rows mat)) r s" and cr: "c \<le> r"
      and vo: "visited_ok (nat r + 1) s"
      using assms by simp_all
    show ?thesis
    proof (cases "in_range c (tags s) \<and> tags s ! nat c \<noteq> r \<and>
                  in_range c (parent s) \<and> in_range c (nonZerosPerCol s)")
      case True
      then have c0: "0 \<le> c" and ne: "tags s ! nat c \<noteq> r" by (simp_all add: in_range_def)
      have "c \<noteq> r" using ne ok by (auto simp: in_row_def)
      then have lt: "c < r" using cr by simp
      have cN: "nat c < length (parent s)"
        using True by (simp add: in_range_def nat_less_iff)
      have st: "step mat p
                = AtWalk r i e (parent (walk_body r c s) ! nat c) (walk_body r c s)"
        using AtWalk True by (simp add: Let_def)
      have kept: "parent (walk_body r c s) ! v = parent s ! v" if "parent s ! v \<noteq> - 1" for v
        using that by (cases "v = nat c") (simp_all add: walk_body_fields)
      have disc: "int v = c \<and> parent (walk_body r c s) ! v = r \<and> tags s ! v = int v"
        if "v < nat r + 1" and "parent s ! v = - 1" and "parent (walk_body r c s) ! v \<noteq> - 1"
        for v
      proof -
        have vc: "v = nat c"
          using that(2,3) by (cases "v = nat c") (auto simp: walk_body_fields split: if_splits)
        then have "parent (walk_body r c s) ! v = r"
          using that(2) cN by (simp add: walk_body_fields)
        moreover have "tags s ! v = int v"
          using vo that(1,2) by (simp add: visited_ok_def)
        ultimately show ?thesis using vc c0 by simp
      qed
      have ea: "etree_at p = Some s" "initialized p = nat r + 1" "at_walk p = Some (r, c)"
        using AtWalk by simp_all
      have eb: "etree_at (step mat p) = Some (walk_body r c s)"
        by (simp only: st etree_at.simps)
      have K: "\<forall>v \<in> {0..<nat r + 1}.
                 parent s ! v \<noteq> - 1 \<longrightarrow> parent (walk_body r c s) ! v = parent s ! v"
        using kept by blast
      have D: "\<forall>v \<in> {0..<nat r + 1}.
                 parent s ! v = - 1 \<and> parent (walk_body r c s) ! v \<noteq> - 1 \<longrightarrow>
                   Some (r, c) = Some (parent (walk_body r c s) ! v, int v) \<and>
                   int v < parent (walk_body r c s) ! v \<and> tags s ! v = int v"
      proof (intro ballI impI)
        fix v
        assume v: "v \<in> {0..<nat r + 1}"
          and h: "parent s ! v = - 1 \<and> parent (walk_body r c s) ! v \<noteq> - 1"
        have d: "int v = c" "parent (walk_body r c s) ! v = r" "tags s ! v = int v"
          using disc[of v] v h by simp_all
        show "Some (r, c) = Some (parent (walk_body r c s) ! v, int v) \<and>
              int v < parent (walk_body r c s) ! v \<and> tags s ! v = int v"
          using d lt by simp
      qed
      show ?thesis
        using K D lt by (auto simp add: parent_kept_def first_discovery_def ea eb)
    next
      case False
      then have "etree_at (step mat p) = None \<or> etree_at (step mat p) = Some s"
        using AtWalk by auto
      then show ?thesis
        using AtWalk by (auto simp: parent_kept_def first_discovery_def)
    qed
  qed (simp_all add: parent_kept_def first_discovery_def)
  then show "parent_kept p (step mat p)" and "first_discovery p (step mat p)" by simp_all
qed

lemma initialized_step:
  assumes "point_ok mat p" and "etree_at (step mat p) \<noteq> None"
  shows "etree_at p \<noteq> None" and "initialized p \<le> initialized (step mat p)"
proof -
  show "etree_at p \<noteq> None" using assms(2) by (cases p) auto
  show "initialized p \<le> initialized (step mat p)"
  proof (cases p)
    case (AtEntry r i e s)
    then have "0 \<le> r" using assms(1) by (simp add: in_row_def)
    then have "nat (r + 1) = nat r + 1" by simp
    then show ?thesis using AtEntry assms(2) by (auto simp: Let_def split: if_splits)
  qed (use assms(2) in \<open>auto simp: Let_def split: if_splits\<close>)
qed

lemma initialized_mono:
  "j \<le> k \<Longrightarrow> etree_at (point_after mat k) \<noteq> None \<Longrightarrow>
   etree_at (point_after mat j) \<noteq> None \<and>
   initialized (point_after mat j) \<le> initialized (point_after mat k)"
proof (induction k)
  case 0
  then show ?case by simp
next
  case (Suc k)
  show ?case
  proof (cases "j = Suc k")
    case True
    then show ?thesis using Suc.prems by simp
  next
    case False
    then have jk: "j \<le> k" using Suc.prems by simp
    have st: "point_after mat (Suc k) = step mat (point_after mat k)"
      by (simp add: point_after_def)
    note one = initialized_step[OF point_ok_after, of mat k, folded st, OF Suc.prems(2)]
    from Suc.IH[OF jk one(1)] one(2) show ?thesis by linarith
  qed
qed

lemma parent_kept_after:
  "j \<le> k \<Longrightarrow> parent_kept (point_after mat j) (point_after mat k)"
proof (induction k)
  case 0
  then show ?case by (simp add: parent_kept_def split: option.splits)
next
  case (Suc k)
  show ?case
  proof (cases "j = Suc k")
    case True
    then show ?thesis by (simp add: parent_kept_def split: option.splits)
  next
    case False
    then have jk: "j \<le> k" using Suc.prems by simp
    have st: "point_after mat (Suc k) = step mat (point_after mat k)"
      by (simp add: point_after_def)
    show ?thesis
    proof (cases "etree_at (point_after mat (Suc k))")
      case None
      then show ?thesis by (simp add: parent_kept_def split: option.splits)
    next
      case (Some s2)
      then have ne: "etree_at (step mat (point_after mat k)) \<noteq> None" using st by simp
      obtain s1 where s1: "etree_at (point_after mat k) = Some s1"
        using initialized_step(1)[OF point_ok_after ne] by auto
      have mono: "etree_at (point_after mat j) \<noteq> None"
        "initialized (point_after mat j) \<le> initialized (point_after mat k)"
        using initialized_mono[OF jk, of mat] s1 by simp_all
      then obtain s0 where s0: "etree_at (point_after mat j) = Some s0" by auto
      have a: "\<forall>v \<in> {0..<initialized (point_after mat j)}.
                 parent s0 ! v \<noteq> - 1 \<longrightarrow> parent s1 ! v = parent s0 ! v"
        using Suc.IH[OF jk] s0 s1 by (simp add: parent_kept_def)
      have b: "\<forall>v \<in> {0..<initialized (point_after mat k)}.
                 parent s1 ! v \<noteq> - 1 \<longrightarrow> parent s2 ! v = parent s1 ! v"
        using step_parents(1)[OF point_ok_after point_visited_ok_after, of mat k] s1 Some st
        by (simp add: parent_kept_def)
      have "\<forall>v \<in> {0..<initialized (point_after mat j)}.
                 parent s0 ! v \<noteq> - 1 \<longrightarrow> parent s2 ! v = parent s0 ! v"
      proof (intro ballI impI)
        fix v assume v: "v \<in> {0..<initialized (point_after mat j)}" and p: "parent s0 ! v \<noteq> - 1"
        then have e: "parent s1 ! v = parent s0 ! v" using a by blast
        have "v \<in> {0..<initialized (point_after mat k)}" using v mono(2) by simp
        then have "parent s2 ! v = parent s1 ! v" using b e p by simp
        then show "parent s2 ! v = parent s0 ! v" using e by simp
      qed
      then show ?thesis using s0 Some by (simp add: parent_kept_def)
    qed
  qed
qed

text \<open>
  C10. After any number of steps of the sweep, on any input: every initialized node
  either has not been reached by a walk and has no parent, or has a strictly greater
  parent, a row not after the one that reached it last; whenever the walk's body is about
  to run at \<open>c\<close> in row \<open>r\<close>, where alone \<open>parent[c] = r\<close> is assigned, \<open>c < r\<close>; a node gets
  its parent in the step in which a walk reaches it for the first time, and the parent is
  the row of that walk; and a parent once set is the same in every later configuration.
\<close>

theorem parent_forest_invariant:
  "sweep_invariant (point_after mat k) \<and>
   first_discovery (point_after mat k) (point_after mat (Suc k)) \<and>
   (\<forall>j \<in> {0..k}. parent_kept (point_after mat j) (point_after mat k))"
proof (intro conjI ballI)
  show "sweep_invariant (point_after mat k)"
    by (rule point_ok_sweep_invariant[OF point_ok_after point_visited_ok_after])
  have "point_after mat (Suc k) = step mat (point_after mat k)"
    by (simp add: point_after_def)
  then show "first_discovery (point_after mat k) (point_after mat (Suc k))"
    using step_parents(2)[OF point_ok_after point_visited_ok_after, of mat k] by simp
  show "parent_kept (point_after mat j) (point_after mat k)" if "j \<in> {0..k}" for j
    using that by (intro parent_kept_after) simp
qed

theorem parent_forest_invariant_witness:
  "point_after \<lparr>rows = 3, row_ptr = [0, 1, 3, 6], col_idx = [0, 0, 1, 0, 1, 2]\<rparr> 6
     = AtWalk 1 1 3 1
         \<lparr>parent = [1, - 1, 0], nonZerosPerCol = [1, 0, 0], tags = [1, 1, 0], nnz = 1\<rparr> \<and>
   point_after \<lparr>rows = 3, row_ptr = [0, 1, 3, 6], col_idx = [0, 0, 1, 0, 1, 2]\<rparr> 11
     = AtWalk 2 3 6 0
         \<lparr>parent = [1, - 1, - 1], nonZerosPerCol = [1, 0, 0], tags = [1, 1, 2], nnz = 1\<rparr> \<and>
   point_after \<lparr>rows = 3, row_ptr = [0, 1, 3, 6], col_idx = [0, 0, 1, 0, 1, 2]\<rparr> 12
     = AtWalk 2 3 6 1
         \<lparr>parent = [1, - 1, - 1], nonZerosPerCol = [2, 0, 0], tags = [2, 1, 2], nnz = 2\<rparr> \<and>
   point_after \<lparr>rows = 3, row_ptr = [0, 1, 3, 6], col_idx = [0, 0, 1, 0, 1, 2]\<rparr> 13
     = AtWalk 2 3 6 2
         \<lparr>parent = [1, 2, - 1], nonZerosPerCol = [2, 1, 0], tags = [2, 2, 2], nnz = 3\<rparr> \<and>
   sweep_invariant
     (AtWalk 2 3 6 1
         \<lparr>parent = [1, - 1, - 1], nonZerosPerCol = [2, 0, 0], tags = [2, 1, 2], nnz = 2\<rparr>) \<and>
   first_discovery
     (AtWalk 2 3 6 1
         \<lparr>parent = [1, - 1, - 1], nonZerosPerCol = [2, 0, 0], tags = [2, 1, 2], nnz = 2\<rparr>)
     (AtWalk 2 3 6 2
         \<lparr>parent = [1, 2, - 1], nonZerosPerCol = [2, 1, 0], tags = [2, 2, 2], nnz = 3\<rparr>) \<and>
   parent_kept
     (AtWalk 1 1 3 1
         \<lparr>parent = [1, - 1, 0], nonZerosPerCol = [1, 0, 0], tags = [1, 1, 0], nnz = 1\<rparr>)
     (AtWalk 2 3 6 1
         \<lparr>parent = [1, - 1, - 1], nonZerosPerCol = [2, 0, 0], tags = [2, 1, 2], nnz = 2\<rparr>)"
proof -
  let ?M = "\<lparr>rows = 3, row_ptr = [0, 1, 3, 6], col_idx = [0, 0, 1, 0, 1, 2]\<rparr>"
  have e6: "point_after ?M 6
     = AtWalk 1 1 3 1
         \<lparr>parent = [1, - 1, 0], nonZerosPerCol = [1, 0, 0], tags = [1, 1, 0], nnz = 1\<rparr>"
    by code_simp
  have e11: "point_after ?M 11
     = AtWalk 2 3 6 0
         \<lparr>parent = [1, - 1, - 1], nonZerosPerCol = [1, 0, 0], tags = [1, 1, 2], nnz = 1\<rparr>"
    by code_simp
  have e12: "point_after ?M 12
     = AtWalk 2 3 6 1
         \<lparr>parent = [1, - 1, - 1], nonZerosPerCol = [2, 0, 0], tags = [2, 1, 2], nnz = 2\<rparr>"
    by code_simp
  have e13: "point_after ?M (Suc 12)
     = AtWalk 2 3 6 2
         \<lparr>parent = [1, 2, - 1], nonZerosPerCol = [2, 1, 0], tags = [2, 2, 2], nnz = 3\<rparr>"
    by code_simp
  have e13': "point_after ?M 13 = point_after ?M (Suc 12)" by simp
  have j: "(6 :: nat) \<in> {0..12}" by simp
  from parent_forest_invariant[of ?M 12]
  have "sweep_invariant (point_after ?M 12)"
    and "first_discovery (point_after ?M 12) (point_after ?M (Suc 12))"
    and "parent_kept (point_after ?M 6) (point_after ?M 12)"
    using j by blast+
  then show ?thesis
    by (simp only: e6 e11 e12 e13 e13' simp_thms)
qed

section \<open>The loops and the machine agree\<close>

lemma funpow_Faulted: "(step mat ^^ k) (Faulted f) = Faulted f"
  by (induction k) simp_all

lemma funpow_step_first: "(step mat ^^ Suc k) p = (step mat ^^ k) (step mat p)"
  by (simp add: funpow_swap1)

lemma funpow_then:
  "(step mat ^^ k) p = q \<Longrightarrow> (step mat ^^ j) q = q' \<Longrightarrow> (step mat ^^ (j + k)) p = q'"
  by (simp add: funpow_add)

lemma walk_machine:
  "\<exists>k. (step mat ^^ k) (AtWalk r i e c s)
        = (case walk r c s of Inl f \<Rightarrow> Faulted f | Inr s' \<Rightarrow> AtEntry r (i + 1) e s')"
proof (induction r c s rule: walk.induct)
  case (1 r c s)
  show ?case
  proof (cases "in_range c (tags s) \<and> tags s ! nat c \<noteq> r \<and>
                in_range c (parent s) \<and> in_range c (nonZerosPerCol s)")
    case True
    define s' where "s' = walk_body r c s"
    from "1.IH"[of s'] True obtain k where
      k: "(step mat ^^ k) (AtWalk r i e (parent s' ! nat c) s')
          = (case walk r (parent s' ! nat c) s' of
               Inl f \<Rightarrow> Faulted f | Inr s'' \<Rightarrow> AtEntry r (i + 1) e s'')"
      by (auto simp: s'_def)
    have w: "walk r c s = walk r (parent s' ! nat c) s'"
      using True by (subst walk.simps) (simp add: s'_def Let_def)
    have st: "step mat (AtWalk r i e c s) = AtWalk r i e (parent s' ! nat c) s'"
      using True by (simp add: s'_def Let_def)
    have "(step mat ^^ Suc k) (AtWalk r i e c s)
          = (case walk r c s of Inl f \<Rightarrow> Faulted f | Inr s' \<Rightarrow> AtEntry r (i + 1) e s')"
      by (simp only: funpow_step_first st k w)
    then show ?thesis by blast
  next
    case False
    then have "(step mat ^^ 1) (AtWalk r i e c s)
          = (case walk r c s of Inl f \<Rightarrow> Faulted f | Inr s' \<Rightarrow> AtEntry r (i + 1) e s')"
      by (subst walk.simps) auto
    then show ?thesis by blast
  qed
qed

lemma entries_machine:
  "\<exists>k. (step mat ^^ k) (AtEntry r i e s)
        = (case entries_loop mat r i e s of Inl f \<Rightarrow> Faulted f | Inr s' \<Rightarrow> AtRow (r + 1) s')"
proof (induction mat r i e s rule: entries_loop.induct)
  case (1 mat r i e s)
  let ?goal = "\<lambda>k. (step mat ^^ k) (AtEntry r i e s)
        = (case entries_loop mat r i e s of Inl f \<Rightarrow> Faulted f | Inr s' \<Rightarrow> AtRow (r + 1) s')"
  show ?case
  proof (cases "i < e \<and> in_range i (col_idx mat)")
    case False
    then have "?goal 1"
      by (subst entries_loop.simps) auto
    then show ?thesis by blast
  next
    case True
    define c where "c = col_idx mat ! nat i"
    show ?thesis
    proof (cases "c < r")
      case False
      from "1.IH"(2)[of c] True False obtain k where
        k: "(step mat ^^ k) (AtEntry r (i + 1) e s)
            = (case entries_loop mat r (i + 1) e s of
                 Inl f \<Rightarrow> Faulted f | Inr s' \<Rightarrow> AtRow (r + 1) s')"
        by (auto simp: c_def)
      have st: "step mat (AtEntry r i e s) = AtEntry r (i + 1) e s"
        using True False by (simp add: c_def Let_def)
      have el: "entries_loop mat r i e s = entries_loop mat r (i + 1) e s"
        using True False by (subst entries_loop.simps) (simp add: c_def Let_def)
      have "?goal (Suc k)"
        by (simp only: funpow_step_first st k el)
      then show ?thesis by blast
    next
      case lt: True
      have st: "step mat (AtEntry r i e s) = AtWalk r i e c s"
        using True lt by (simp add: c_def Let_def)
      obtain k1 where k1: "(step mat ^^ k1) (AtWalk r i e c s)
          = (case walk r c s of Inl f \<Rightarrow> Faulted f | Inr s' \<Rightarrow> AtEntry r (i + 1) e s')"
        using walk_machine by blast
      show ?thesis
      proof (cases "walk r c s")
        case (Inl f)
        have el: "entries_loop mat r i e s = Inl f"
          using True lt Inl by (subst entries_loop.simps) (simp add: c_def Let_def)
        have "?goal (Suc k1)"
          by (simp only: funpow_step_first st k1) (simp add: Inl el)
        then show ?thesis by blast
      next
        case (Inr s')
        from "1.IH"(1)[of c s'] True lt Inr obtain k2 where
          k2: "(step mat ^^ k2) (AtEntry r (i + 1) e s')
               = (case entries_loop mat r (i + 1) e s' of
                    Inl f \<Rightarrow> Faulted f | Inr s'' \<Rightarrow> AtRow (r + 1) s'')"
          by (auto simp: c_def)
        have el: "entries_loop mat r i e s = entries_loop mat r (i + 1) e s'"
          using True lt Inr by (subst entries_loop.simps) (simp add: c_def Let_def)
        have a: "(step mat ^^ Suc k1) (AtEntry r i e s) = AtEntry r (i + 1) e s'"
          by (simp only: funpow_step_first st k1) (simp add: Inr)
        have "?goal (k2 + Suc k1)"
          using funpow_then[OF a k2] by (simp only: el)
        then show ?thesis by blast
      qed
    qed
  qed
qed

lemma rows_machine:
  "sz = rows mat \<Longrightarrow>
   \<exists>k. (step mat ^^ k) (AtRow r s)
        = (case rows_loop mat sz r s of
             Inl f \<Rightarrow> Faulted f | Inr s' \<Rightarrow> Returned (fill_count mat s'))"
proof (induction mat sz r s rule: rows_loop.induct)
  case (1 mat sz r s)
  let ?goal = "\<lambda>k. (step mat ^^ k) (AtRow r s)
        = (case rows_loop mat sz r s of
             Inl f \<Rightarrow> Faulted f | Inr s' \<Rightarrow> Returned (fill_count mat s'))"
  note sz = "1.prems"
  show ?case
  proof (cases "r < sz \<and> in_range r (parent s) \<and> in_range r (tags s) \<and>
                in_range r (nonZerosPerCol s) \<and>
                in_range r (row_ptr mat) \<and> in_range (r + 1) (row_ptr mat)")
    case False
    then have "?goal 1"
      using sz by (subst rows_loop.simps) (auto simp: Let_def)
    then show ?thesis by blast
  next
    case True
    define s1 where "s1 = row_init r s"
    define st where "st = row_ptr mat ! nat r"
    define e where "e = row_ptr mat ! nat (r + 1)"
    have stp: "step mat (AtRow r s) = AtEntry r st e s1"
      using True sz by (simp add: s1_def st_def e_def Let_def)
    obtain k1 where k1: "(step mat ^^ k1) (AtEntry r st e s1)
        = (case entries_loop mat r st e s1 of
             Inl f \<Rightarrow> Faulted f | Inr s' \<Rightarrow> AtRow (r + 1) s')"
      using entries_machine by blast
    show ?thesis
    proof (cases "entries_loop mat r st e s1")
      case (Inl f)
      have rl: "rows_loop mat sz r s = Inl f"
        using True Inl by (subst rows_loop.simps) (simp add: s1_def st_def e_def Let_def)
      have "?goal (Suc k1)"
        by (simp only: funpow_step_first stp k1) (simp add: Inl rl)
      then show ?thesis by blast
    next
      case (Inr s2)
      from "1.IH"[of s1 s2] True Inr sz obtain k2 where
        k2: "(step mat ^^ k2) (AtRow (r + 1) s2)
             = (case rows_loop mat sz (r + 1) s2 of
                  Inl f \<Rightarrow> Faulted f | Inr s' \<Rightarrow> Returned (fill_count mat s'))"
        by (auto simp: s1_def st_def e_def)
      have rl: "rows_loop mat sz r s = rows_loop mat sz (r + 1) s2"
        using True Inr by (subst rows_loop.simps) (simp add: s1_def st_def e_def Let_def)
      have a: "(step mat ^^ Suc k1) (AtRow r s) = AtRow (r + 1) s2"
        by (simp only: funpow_step_first stp k1) (simp add: Inr)
      have "?goal (k2 + Suc k1)"
        using funpow_then[OF a k2] by (simp only: rl)
      then show ?thesis by blast
    qed
  qed
qed

text \<open>The machine halts in the configuration that \<open>count_nnz_fillin\<close> computes.\<close>

lemma machine_reaches_result:
  "\<exists>k. point_after mat k
        = (case count_nnz_fillin mat of Inl f \<Rightarrow> Faulted f | Inr v \<Rightarrow> Returned v)"
proof (cases "rows mat < 0")
  case True
  then have "point_after mat 0
        = (case count_nnz_fillin mat of Inl f \<Rightarrow> Faulted f | Inr v \<Rightarrow> Returned v)"
    by (simp add: point_after_def start_point_def count_nnz_fillin_def)
  then show ?thesis by blast
next
  case False
  obtain k where "(step mat ^^ k) (AtRow 0 (initial_etree (rows mat)))
        = (case rows_loop mat (rows mat) 0 (initial_etree (rows mat)) of
             Inl f \<Rightarrow> Faulted f | Inr s' \<Rightarrow> Returned (fill_count mat s'))"
    using rows_machine[OF refl] by blast
  then have "point_after mat k
        = (case count_nnz_fillin mat of Inl f \<Rightarrow> Faulted f | Inr v \<Rightarrow> Returned v)"
    using False
    by (simp add: point_after_def start_point_def count_nnz_fillin_def split: sum.splits)
  then show ?thesis by blast
qed

section \<open>The elimination-tree counter: safety and counting\<close>

lemma in_row_lengths:
  assumes "in_row N r s"
  shows "length (parent s) = N" "length (tags s) = N" "length (nonZerosPerCol s) = N"
    "nat r < N" "0 \<le> r" "tags s ! nat r = r"
  using assms by (simp_all add: in_row_def etree_ok_def)

lemma in_row_in_range:
  assumes "in_row N r s" and "0 \<le> c" and "c \<le> r"
  shows "in_range c (tags s)" "in_range c (parent s)" "in_range c (nonZerosPerCol s)"
proof -
  have "nat c < N" using in_row_lengths(4,5)[OF assms(1)] assms(2,3) by linarith
  then have "c < int N" using assms(2) by linarith
  then show "in_range c (tags s)" "in_range c (parent s)" "in_range c (nonZerosPerCol s)"
    using in_row_lengths(1-3)[OF assms(1)] assms(2) by (simp_all add: in_range_def)
qed

text \<open>
  Within a row the walk from any node \<open>c \<le> r\<close> returns: each step moves to a strictly
  greater node, at most \<open>r\<close>, and \<open>r\<close> itself is tagged.
\<close>

lemma walk_safe:
  "in_row N r s \<Longrightarrow> 0 \<le> c \<Longrightarrow> c \<le> r \<Longrightarrow>
   \<exists>s'. walk r c s = Inr s' \<and> in_row N r s' \<and> tags s' ! nat c = r \<and>
        (\<forall>v. tags s ! v = r \<longrightarrow> tags s' ! v = r)"
proof (induction r c s rule: walk.induct)
  case (1 r c s)
  note ok = "1.prems"(1) and c0 = "1.prems"(2) and cr = "1.prems"(3)
  note rng = in_row_in_range[OF ok c0 cr]
  show ?case
  proof (cases "tags s ! nat c = r")
    case True
    then have "walk r c s = Inr s"
      using rng by (subst walk.simps) simp
    then show ?thesis using ok True by simp
  next
    case False
    then have "c \<noteq> r" using in_row_lengths(6)[OF ok] by auto
    then have lt: "c < r" using cr by simp
    define s' where "s' = walk_body r c s"
    define c' where "c' = parent s' ! nat c"
    have ok': "in_row N r s'" and c'1: "c < c'" and c'2: "c' \<le> r"
      using in_row_after_body[OF ok c0 lt] by (simp_all add: s'_def c'_def)
    have w: "walk r c s = walk r c' s'"
      using rng False by (subst walk.simps) (simp add: s'_def c'_def Let_def)
    have "\<exists>s''. walk r c' s' = Inr s'' \<and> in_row N r s'' \<and> tags s'' ! nat c' = r \<and>
        (\<forall>v. tags s' ! v = r \<longrightarrow> tags s'' ! v = r)"
      using "1.IH"[of s'] rng False ok' c'1 c'2 c0 by (simp add: s'_def c'_def)
    then obtain s'' where s'': "walk r c' s' = Inr s''" "in_row N r s''"
      and mono: "\<forall>v. tags s' ! v = r \<longrightarrow> tags s'' ! v = r"
      by blast
    have cN: "nat c < length (tags s)"
      using rng(1) by (simp add: in_range_def nat_less_iff)
    have t': "tags s' = (tags s)[nat c := r]"
      by (simp add: s'_def walk_body_fields)
    have "tags s' ! nat c = r" using cN by (simp add: t')
    then have a: "tags s'' ! nat c = r" using mono by simp
    have b: "\<forall>v. tags s ! v = r \<longrightarrow> tags s'' ! v = r"
    proof (intro allI impI)
      fix v assume "tags s ! v = r"
      then have "tags s' ! v = r"
        by (cases "v = nat c") (use cN in \<open>simp_all add: t'\<close>)
      then show "tags s'' ! v = r" using mono by simp
    qed
    show ?thesis using w s'' a b by simp
  qed
qed

text \<open>
  Counting along the walk, as long as \<open>nnz\<close> stays within \<open>int\<close>: every turn of the body
  adds one to \<open>nnz\<close> and tags one more node below \<open>r\<close>.
\<close>

lemma untagged_after_body:
  assumes "nat c < nat r" and "tags s ! nat c \<noteq> r" and "nat c < length (tags s)"
  shows "untagged r (walk_body r c s) + 1 = untagged r s"
proof -
  let ?A = "{v \<in> {0..<nat r}. tags s ! v \<noteq> r}"
  have "{v \<in> {0..<nat r}. tags (walk_body r c s) ! v \<noteq> r} = ?A - {nat c}"
    using assms by (auto simp: walk_body_fields nth_list_update)
  moreover have "nat c \<in> ?A" using assms by simp
  moreover have "finite ?A" by simp
  ultimately show ?thesis
    unfolding untagged_def
    by (metis (no_types, lifting) Suc_eq_plus1 card_Suc_Diff1)
qed

lemma walk_count:
  "in_row N r s \<Longrightarrow> 0 \<le> c \<Longrightarrow> c \<le> r \<Longrightarrow> walk r c s = Inr s' \<Longrightarrow>
   0 \<le> nnz s \<Longrightarrow> nnz s + int (untagged r s) \<le> INT_MAX \<Longrightarrow>
   nnz s' + int (untagged r s') = nnz s + int (untagged r s) \<and> nnz s \<le> nnz s'"
proof (induction r c s rule: walk.induct)
  case (1 r c s)
  note ok = "1.prems"(1) and c0 = "1.prems"(2) and cr = "1.prems"(3)
    and res = "1.prems"(4) and n0 = "1.prems"(5) and bound = "1.prems"(6)
  note rng = in_row_in_range[OF ok c0 cr]
  show ?case
  proof (cases "tags s ! nat c = r")
    case True
    then have "walk r c s = Inr s"
      using rng by (subst walk.simps) simp
    then show ?thesis using res by simp
  next
    case False
    then have "c \<noteq> r" using in_row_lengths(6)[OF ok] by auto
    then have lt: "c < r" using cr by simp
    define s1 where "s1 = walk_body r c s"
    define c' where "c' = parent s1 ! nat c"
    have ok': "in_row N r s1" and c'1: "c < c'" and c'2: "c' \<le> r"
      using in_row_after_body[OF ok c0 lt] by (simp_all add: s1_def c'_def)
    have w: "walk r c s = walk r c' s1"
      using rng False by (subst walk.simps) (simp add: s1_def c'_def Let_def)
    have cN: "nat c < length (tags s)"
      using rng(1) by (simp add: in_range_def nat_less_iff)
    have u: "untagged r s1 + 1 = untagged r s"
      unfolding s1_def using lt c0 False cN by (intro untagged_after_body) simp_all
    then have "nnz s + 1 \<le> INT_MAX" using bound by linarith
    then have n1: "nnz s1 = nnz s + 1"
      using n0 by (simp add: s1_def walk_body_fields to_int32_id INT_MAX_def)
    have "nnz s' + int (untagged r s') = nnz s1 + int (untagged r s1) \<and> nnz s1 \<le> nnz s'"
      using "1.IH"[of s1] rng False ok' c'1 c'2 c0 res w n1 n0 u bound
      by (simp add: s1_def c'_def)
    then show ?thesis using n1 u by linarith
  qed
qed

lemma entries_safe:
  "in_row N r s \<Longrightarrow> 0 \<le> i \<Longrightarrow> e \<le> int (length (col_idx mat)) \<Longrightarrow>
   (\<forall>j. i \<le> j \<and> j < e \<longrightarrow> 0 \<le> col_idx mat ! nat j) \<Longrightarrow>
   \<exists>s'. entries_loop mat r i e s = Inr s' \<and> in_row N r s' \<and>
        (\<forall>j. i \<le> j \<and> j < e \<and> col_idx mat ! nat j < r
              \<longrightarrow> tags s' ! nat (col_idx mat ! nat j) = r) \<and>
        (\<forall>v. tags s ! v = r \<longrightarrow> tags s' ! v = r)"
proof (induction mat r i e s rule: entries_loop.induct)
  case (1 mat r i e s)
  note ok = "1.prems"(1) and i0 = "1.prems"(2) and eN = "1.prems"(3) and cols = "1.prems"(4)
  show ?case
  proof (cases "i < e")
    case False
    then have "entries_loop mat r i e s = Inr s"
      by (subst entries_loop.simps) simp
    then show ?thesis using ok False by simp
  next
    case True
    then have rng: "in_range i (col_idx mat)"
      using i0 eN by (simp add: in_range_def)
    define c where "c = col_idx mat ! nat i"
    have c0: "0 \<le> c" using cols True by (simp add: c_def)
    have rest: "\<forall>j. i + 1 \<le> j \<and> j < e \<longrightarrow> 0 \<le> col_idx mat ! nat j"
      using cols by simp
    show ?thesis
    proof (cases "c < r")
      case False
      have el: "entries_loop mat r i e s = entries_loop mat r (i + 1) e s"
        using True rng False by (subst entries_loop.simps) (simp add: c_def Let_def)
      have "\<exists>s'. entries_loop mat r (i + 1) e s = Inr s' \<and> in_row N r s' \<and>
          (\<forall>j. i + 1 \<le> j \<and> j < e \<and> col_idx mat ! nat j < r
                \<longrightarrow> tags s' ! nat (col_idx mat ! nat j) = r) \<and>
          (\<forall>v. tags s ! v = r \<longrightarrow> tags s' ! v = r)"
        using "1.IH"(2)[of c] True rng False ok i0 eN rest by (simp add: c_def)
      then obtain s' where s': "entries_loop mat r (i + 1) e s = Inr s'" "in_row N r s'"
        and tg: "\<forall>j. i + 1 \<le> j \<and> j < e \<and> col_idx mat ! nat j < r
                  \<longrightarrow> tags s' ! nat (col_idx mat ! nat j) = r"
        and mono: "\<forall>v. tags s ! v = r \<longrightarrow> tags s' ! v = r"
        by blast
      have "tags s' ! nat (col_idx mat ! nat j) = r"
        if "i \<le> j \<and> j < e \<and> col_idx mat ! nat j < r" for j
      proof (cases "j = i")
        case True
        then show ?thesis using that False by (simp add: c_def)
      next
        case False
        then show ?thesis using that tg by simp
      qed
      then show ?thesis using el s' mono by simp
    next
      case lt: True
      obtain s1 where s1: "walk r c s = Inr s1" "in_row N r s1" "tags s1 ! nat c = r"
        and mono1: "\<forall>v. tags s ! v = r \<longrightarrow> tags s1 ! v = r"
        using walk_safe[OF ok c0] lt by fastforce
      have el: "entries_loop mat r i e s = entries_loop mat r (i + 1) e s1"
        using True rng lt s1(1) by (subst entries_loop.simps) (simp add: c_def Let_def)
      have "\<exists>s'. entries_loop mat r (i + 1) e s1 = Inr s' \<and> in_row N r s' \<and>
          (\<forall>j. i + 1 \<le> j \<and> j < e \<and> col_idx mat ! nat j < r
                \<longrightarrow> tags s' ! nat (col_idx mat ! nat j) = r) \<and>
          (\<forall>v. tags s1 ! v = r \<longrightarrow> tags s' ! v = r)"
        using "1.IH"(1)[of c s1] True rng lt s1(1,2) i0 eN rest by (simp add: c_def)
      then obtain s' where s': "entries_loop mat r (i + 1) e s1 = Inr s'" "in_row N r s'"
        and tg: "\<forall>j. i + 1 \<le> j \<and> j < e \<and> col_idx mat ! nat j < r
                  \<longrightarrow> tags s' ! nat (col_idx mat ! nat j) = r"
        and mono: "\<forall>v. tags s1 ! v = r \<longrightarrow> tags s' ! v = r"
        by blast
      have "tags s' ! nat (col_idx mat ! nat j) = r"
        if "i \<le> j \<and> j < e \<and> col_idx mat ! nat j < r" for j
      proof (cases "j = i")
        case True
        then show ?thesis using s1(3) mono by (simp add: c_def)
      next
        case False
        then show ?thesis using that tg by simp
      qed
      then show ?thesis using el s' mono mono1 by simp
    qed
  qed
qed

lemma entries_count:
  "in_row N r s \<Longrightarrow> 0 \<le> i \<Longrightarrow> e \<le> int (length (col_idx mat)) \<Longrightarrow>
   (\<forall>j. i \<le> j \<and> j < e \<longrightarrow> 0 \<le> col_idx mat ! nat j) \<Longrightarrow>
   entries_loop mat r i e s = Inr s' \<Longrightarrow>
   0 \<le> nnz s \<Longrightarrow> nnz s + int (untagged r s) \<le> INT_MAX \<Longrightarrow>
   nnz s' + int (untagged r s') = nnz s + int (untagged r s) \<and> nnz s \<le> nnz s'"
proof (induction mat r i e s rule: entries_loop.induct)
  case (1 mat r i e s)
  note ok = "1.prems"(1) and i0 = "1.prems"(2) and eN = "1.prems"(3) and cols = "1.prems"(4)
    and res = "1.prems"(5) and n0 = "1.prems"(6) and bound = "1.prems"(7)
  show ?case
  proof (cases "i < e")
    case False
    then have "entries_loop mat r i e s = Inr s"
      by (subst entries_loop.simps) simp
    then show ?thesis using res by simp
  next
    case True
    then have rng: "in_range i (col_idx mat)"
      using i0 eN by (simp add: in_range_def)
    define c where "c = col_idx mat ! nat i"
    have c0: "0 \<le> c" using cols True by (simp add: c_def)
    have rest: "\<forall>j. i + 1 \<le> j \<and> j < e \<longrightarrow> 0 \<le> col_idx mat ! nat j"
      using cols by simp
    show ?thesis
    proof (cases "c < r")
      case False
      have el: "entries_loop mat r i e s = entries_loop mat r (i + 1) e s"
        using True rng False by (subst entries_loop.simps) (simp add: c_def Let_def)
      show ?thesis
        using "1.IH"(2)[of c] True rng False ok i0 eN rest res el n0 bound
        by (simp add: c_def)
    next
      case lt: True
      obtain s1 where s1: "walk r c s = Inr s1" "in_row N r s1"
        using walk_safe[OF ok c0] lt by fastforce
      have cnt: "nnz s1 + int (untagged r s1) = nnz s + int (untagged r s)" "nnz s \<le> nnz s1"
        using walk_count[OF ok c0 _ s1(1) n0 bound] lt by simp_all
      have el: "entries_loop mat r i e s = entries_loop mat r (i + 1) e s1"
        using True rng lt s1(1) by (subst entries_loop.simps) (simp add: c_def Let_def)
      have "nnz s' + int (untagged r s') = nnz s1 + int (untagged r s1) \<and> nnz s1 \<le> nnz s'"
        using "1.IH"(1)[of c s1] True rng lt s1 i0 eN rest res el cnt n0 bound
        by (simp add: c_def)
      then show ?thesis using cnt by linarith
    qed
  qed
qed

subsection \<open>One row\<close>

lemma well_formed_row_ptr_mono:
  assumes "well_formed mat" and "b \<le> nat (rows mat)" and "a \<le> b"
  shows "row_ptr mat ! a \<le> row_ptr mat ! b"
  using assms(2,3)
proof (induction b)
  case 0
  then show ?case by simp
next
  case (Suc b)
  show ?case
  proof (cases "a = Suc b")
    case True
    then show ?thesis by simp
  next
    case False
    then have "a \<le> b" using Suc.prems by simp
    then have "row_ptr mat ! a \<le> row_ptr mat ! b"
      using Suc by simp
    moreover have "row_ptr mat ! b \<le> row_ptr mat ! (b + 1)"
      using assms(1) Suc.prems(1) by (simp add: well_formed_def)
    ultimately show ?thesis by simp
  qed
qed

lemma well_formed_row_bounds:
  assumes "well_formed mat" and "0 \<le> r" and "r < rows mat"
  shows "in_range r (row_ptr mat)" "in_range (r + 1) (row_ptr mat)"
    "0 \<le> row_ptr mat ! nat r" "row_ptr mat ! nat (r + 1) \<le> int (length (col_idx mat))"
    "row_ptr mat ! nat r \<le> row_ptr mat ! nat (r + 1)"
proof -
  have len: "length (row_ptr mat) = nat (rows mat) + 1"
    using assms(1) by (simp add: well_formed_def)
  show "in_range r (row_ptr mat)" "in_range (r + 1) (row_ptr mat)"
    using assms(2,3) len by (simp_all add: in_range_def)
  have r1: "nat (r + 1) \<le> nat (rows mat)" "nat r \<le> nat (rows mat)"
    using assms(2,3) by simp_all
  have "row_ptr mat ! 0 \<le> row_ptr mat ! nat r"
    using well_formed_row_ptr_mono[OF assms(1) r1(2), of 0] by simp
  then show "0 \<le> row_ptr mat ! nat r"
    using assms(1) by (simp add: well_formed_def)
  have "row_ptr mat ! nat (r + 1) \<le> row_ptr mat ! nat (rows mat)"
    using well_formed_row_ptr_mono[OF assms(1) _ r1(1)] by simp
  then show "row_ptr mat ! nat (r + 1) \<le> int (length (col_idx mat))"
    using assms(1) by (simp add: well_formed_def)
  show "row_ptr mat ! nat r \<le> row_ptr mat ! nat (r + 1)"
    using well_formed_row_ptr_mono[OF assms(1) r1(1), of "nat r"] assms(2) by simp
qed

lemma well_formed_cols_nonneg:
  assumes "well_formed mat" and "0 \<le> j" and "j < int (length (col_idx mat))"
  shows "0 \<le> col_idx mat ! nat j" and "col_idx mat ! nat j < rows mat"
proof -
  have "col_idx mat ! nat j \<in> set (col_idx mat)"
    using assms(2,3) by (simp add: nat_less_iff)
  then show "0 \<le> col_idx mat ! nat j" and "col_idx mat ! nat j < rows mat"
    using assms(1) by (simp_all add: well_formed_def)
qed

lemma untagged_after_init:
  assumes "0 \<le> r" and "etree_ok N (nat r) (r - 1) s"
  shows "untagged r (row_init r s) = nat r"
proof -
  have "tags (row_init r s) ! v \<noteq> r" if "v < nat r" for v
  proof -
    have "tags s ! v \<le> r - 1" using assms(2) that by (simp add: etree_ok_def)
    then show ?thesis using that by (simp add: row_init_fields)
  qed
  then have "{v \<in> {0..<nat r}. tags (row_init r s) ! v \<noteq> r} = {0..<nat r}"
    by auto
  then show ?thesis by (simp add: untagged_def)
qed

lemma tagged_plus_untagged:
  "card {v \<in> {0..<nat r}. tags s ! v = r} + untagged r s = nat r"
proof -
  let ?T = "{v \<in> {0..<nat r}. tags s ! v = r}" and ?U = "{v \<in> {0..<nat r}. tags s ! v \<noteq> r}"
  have "?T \<union> ?U = {0..<nat r}" "?T \<inter> ?U = {}" by auto
  then have "card ?T + card ?U = card {0..<nat r}"
    by (metis (no_types, lifting) card_Un_disjoint finite_Un finite_atLeastLessThan)
  then show ?thesis by (simp add: untagged_def)
qed

lemma row_cols_set:
  "set (row_cols mat r)
   = (\<lambda>j. col_idx mat ! j) ` {nat (row_ptr mat ! r)..<nat (row_ptr mat ! (r + 1))}"
  by (simp add: row_cols_def)

text \<open>
  Row \<open>r\<close> of a well-formed pattern: the entry loop returns, and (while \<open>nnz\<close> stays within
  \<open>int\<close>) it adds to \<open>nnz\<close> at least the number of distinct stored columns below \<open>r\<close> and
  at most \<open>r\<close>.
\<close>

lemma row_safe_count:
  assumes wf: "well_formed mat" and r0: "0 \<le> r" and rn: "r < rows mat"
    and ok: "etree_ok (nat (rows mat)) (nat r) (r - 1) s"
  shows "\<exists>s2. entries_loop mat r (row_ptr mat ! nat r) (row_ptr mat ! nat (r + 1)) (row_init r s)
               = Inr s2 \<and>
             in_row (nat (rows mat)) r s2 \<and>
             (0 \<le> nnz s \<and> nnz s + r \<le> INT_MAX \<longrightarrow>
                nnz s + int (lower_entries mat (nat r)) \<le> nnz s2 \<and> nnz s2 \<le> nnz s + r)"
proof -
  define st where "st = row_ptr mat ! nat r"
  define e where "e = row_ptr mat ! nat (r + 1)"
  define s1 where "s1 = row_init r s"
  note b = well_formed_row_bounds[OF wf r0 rn]
  have ok1: "in_row (nat (rows mat)) r s1"
    unfolding s1_def using r0 rn ok by (intro in_row_after_init) simp_all
  have cols: "\<forall>j. st \<le> j \<and> j < e \<longrightarrow> 0 \<le> col_idx mat ! nat j"
    using well_formed_cols_nonneg(1)[OF wf] b(3,4) by (simp add: st_def e_def)
  obtain s2 where s2: "entries_loop mat r st e s1 = Inr s2" "in_row (nat (rows mat)) r s2"
    and tg: "\<forall>j. st \<le> j \<and> j < e \<and> col_idx mat ! nat j < r
               \<longrightarrow> tags s2 ! nat (col_idx mat ! nat j) = r"
    using entries_safe[OF ok1 _ _ cols] b(3,4) by (fastforce simp: st_def e_def)
  have cnt: "nnz s + int (lower_entries mat (nat r)) \<le> nnz s2 \<and> nnz s2 \<le> nnz s + r"
    if n0: "0 \<le> nnz s" and bound: "nnz s + r \<le> INT_MAX"
  proof -
    have u1: "untagged r s1 = nat r"
      unfolding s1_def by (rule untagged_after_init[OF r0 ok])
    have n1: "nnz s1 = nnz s" by (simp add: s1_def row_init_fields)
    have "nnz s2 + int (untagged r s2) = nnz s1 + int (untagged r s1)"
      using entries_count[OF ok1 _ _ cols s2(1)] b(3,4) n0 bound u1 n1 r0
      by (simp add: st_def e_def)
    then have eq: "nnz s2 + int (untagged r s2) = nnz s + r"
      using u1 n1 r0 by simp
    let ?T = "{v \<in> {0..<nat r}. tags s2 ! v = r}"
    have tu: "int (card ?T) + int (untagged r s2) = r"
      using tagged_plus_untagged[of r s2] r0 by linarith
    have sub: "nat ` set (filter (\<lambda>c. c < int (nat r)) (row_cols mat (nat r))) \<subseteq> ?T"
    proof
      fix v assume "v \<in> nat ` set (filter (\<lambda>c. c < int (nat r)) (row_cols mat (nat r)))"
      then obtain c where c: "v = nat c" "c < r" "c \<in> set (row_cols mat (nat r))"
        using r0 by auto
      then obtain j where j: "c = col_idx mat ! j" "nat st \<le> j" "j < nat e"
        using r0 by (auto simp: row_cols_set st_def e_def nat_add_distrib)
      have "st \<le> int j \<and> int j < e" using j(2,3) b(3) by (simp add: st_def) linarith
      then have "tags s2 ! nat (col_idx mat ! nat (int j)) = r"
        using tg c(2) j(1) by (metis nat_int)
      then have t: "tags s2 ! nat c = r" using j(1) by simp
      have "0 \<le> c" using cols \<open>st \<le> int j \<and> int j < e\<close> j(1) by (metis nat_int)
      then have "nat c < nat r" using c(2) by simp
      then show "v \<in> ?T" using t c(1) by simp
    qed
    have "inj_on nat (set (filter (\<lambda>c. c < int (nat r)) (row_cols mat (nat r))))"
    proof (rule inj_onI)
      fix x y
      assume x: "x \<in> set (filter (\<lambda>c. c < int (nat r)) (row_cols mat (nat r)))"
        and y: "y \<in> set (filter (\<lambda>c. c < int (nat r)) (row_cols mat (nat r)))"
        and eq: "nat x = nat y"
      have nonneg: "0 \<le> c" if "c \<in> set (row_cols mat (nat r))" for c
      proof -
        from that obtain j where j: "c = col_idx mat ! j" "nat st \<le> j" "j < nat e"
          using r0 by (auto simp: row_cols_set st_def e_def nat_add_distrib)
        have "st \<le> int j \<and> int j < e" using j(2,3) b(3) by (simp add: st_def) linarith
        then show ?thesis using cols j(1) by (metis nat_int)
      qed
      show "x = y" using nonneg[of x] nonneg[of y] x y eq by simp
    qed
    then have "lower_entries mat (nat r)
               = card (nat ` set (filter (\<lambda>c. c < int (nat r)) (row_cols mat (nat r))))"
      by (simp add: lower_entries_def card_image)
    also have "\<dots> \<le> card ?T"
      by (rule card_mono[OF _ sub]) simp
    finally have "int (lower_entries mat (nat r)) \<le> int (card ?T)" by simp
    then show ?thesis using eq tu by linarith
  qed
  show ?thesis
    using s2 cnt by (auto simp: st_def e_def s1_def)
qed

subsection \<open>All rows\<close>

lemma etree_ok_in_range:
  assumes "etree_ok N k b s" and "0 \<le> r" and "r < int N"
  shows "in_range r (parent s)" "in_range r (tags s)" "in_range r (nonZerosPerCol s)"
  using assms by (simp_all add: etree_ok_def in_range_def)

lemma rows_loop_next:
  assumes "well_formed mat" and "0 \<le> r" and "r < rows mat"
    and "etree_ok (nat (rows mat)) (nat r) (r - 1) s"
    and "entries_loop mat r (row_ptr mat ! nat r) (row_ptr mat ! nat (r + 1)) (row_init r s)
         = Inr s2"
  shows "rows_loop mat (rows mat) r s = rows_loop mat (rows mat) (r + 1) s2"
proof -
  have "r < int (nat (rows mat))" using assms(3) by simp
  note rng = etree_ok_in_range[OF assms(4) assms(2) this]
  note b = well_formed_row_bounds[OF assms(1-3)]
  show ?thesis
    using assms(3,5) rng b(1,2) by (subst rows_loop.simps) (simp add: Let_def)
qed

lemma rows_safe:
  "sz = rows mat \<Longrightarrow> well_formed mat \<Longrightarrow> 0 \<le> r \<Longrightarrow> r \<le> sz \<Longrightarrow>
   etree_ok (nat sz) (nat r) (r - 1) s \<Longrightarrow>
   \<exists>s'. rows_loop mat sz r s = Inr s'"
proof (induction mat sz r s rule: rows_loop.induct)
  case (1 mat sz r s)
  note sz = "1.prems"(1) and wf = "1.prems"(2) and r0 = "1.prems"(3) and rn = "1.prems"(4)
    and ok = "1.prems"(5)
  show ?case
  proof (cases "r < sz")
    case False
    then show ?thesis by (subst rows_loop.simps) simp
  next
    case True
    have rsz: "r < rows mat" and rN: "r < int (nat (rows mat))" using True sz by simp_all
    have ok': "etree_ok (nat (rows mat)) (nat r) (r - 1) s" using ok sz by simp
    note rng = etree_ok_in_range[OF ok' r0 rN]
    note b = well_formed_row_bounds[OF wf r0 rsz]
    obtain s2 where s2:
      "entries_loop mat r (row_ptr mat ! nat r) (row_ptr mat ! nat (r + 1)) (row_init r s) = Inr s2"
      "in_row (nat (rows mat)) r s2"
      using row_safe_count[OF wf r0 rsz ok'] by blast
    have nxt: "rows_loop mat sz r s = rows_loop mat sz (r + 1) s2"
      using rows_loop_next[OF wf r0 rsz ok' s2(1)] sz by simp
    have "\<exists>s'. rows_loop mat sz (r + 1) s2 = Inr s'"
      using "1.IH"[of "row_init r s" s2] True rng b(1,2) s2(1) sz wf r0
        in_row_end(1)[OF s2(2)]
      by simp
    then show ?thesis using nxt by simp
  qed
qed

lemma triangle_bound:
  assumes "0 \<le> r" and "r \<le> 65535"
  shows "r * (r - 1) \<le> 65535 * (65534 :: int)"
proof (cases "r = 0")
  case True
  then show ?thesis by simp
next
  case False
  then have "r * (r - 1) \<le> 65535 * (r - 1)"
    using assms by (intro mult_right_mono) simp_all
  also have "\<dots> \<le> 65535 * 65534"
    using assms by simp
  finally show ?thesis .
qed

lemma rows_count:
  "sz = rows mat \<Longrightarrow> well_formed mat \<Longrightarrow> 0 \<le> r \<Longrightarrow> r \<le> sz \<Longrightarrow> sz \<le> 65536 \<Longrightarrow>
   etree_ok (nat sz) (nat r) (r - 1) s \<Longrightarrow>
   0 \<le> nnz s \<Longrightarrow> 2 * nnz s \<le> r * (r - 1) \<Longrightarrow>
   rows_loop mat sz r s = Inr s' \<Longrightarrow>
   nnz s + int (\<Sum>q = nat r..<nat sz. lower_entries mat q) \<le> nnz s' \<and>
   2 * nnz s' \<le> sz * (sz - 1)"
proof (induction mat sz r s rule: rows_loop.induct)
  case (1 mat sz r s)
  note sz = "1.prems"(1) and wf = "1.prems"(2) and r0 = "1.prems"(3) and rn = "1.prems"(4)
    and small = "1.prems"(5) and ok = "1.prems"(6) and n0 = "1.prems"(7)
    and tri = "1.prems"(8) and res = "1.prems"(9)
  show ?case
  proof (cases "r < sz")
    case False
    then have "r = sz" using rn by simp
    moreover have "rows_loop mat sz r s = Inr s"
      using False by (subst rows_loop.simps) simp
    ultimately show ?thesis using res tri by simp
  next
    case True
    have rsz: "r < rows mat" and rN: "r < int (nat (rows mat))" using True sz by simp_all
    have ok': "etree_ok (nat (rows mat)) (nat r) (r - 1) s" using ok sz by simp
    note rng = etree_ok_in_range[OF ok' r0 rN]
    note b = well_formed_row_bounds[OF wf r0 rsz]
    have "r * (r - 1) \<le> 65535 * 65534"
      using triangle_bound[OF r0] True small by simp
    then have fits: "nnz s + r \<le> INT_MAX"
      using tri True small by (simp add: INT_MAX_def)
    obtain s2 where s2:
      "entries_loop mat r (row_ptr mat ! nat r) (row_ptr mat ! nat (r + 1)) (row_init r s) = Inr s2"
      "in_row (nat (rows mat)) r s2"
      and cnt: "nnz s + int (lower_entries mat (nat r)) \<le> nnz s2" "nnz s2 \<le> nnz s + r"
      using row_safe_count[OF wf r0 rsz ok'] n0 fits by blast
    have nxt: "rows_loop mat sz r s = rows_loop mat sz (r + 1) s2"
      using rows_loop_next[OF wf r0 rsz ok' s2(1)] sz by simp
    have n2: "0 \<le> nnz s2" using cnt(1) n0 by linarith
    have "2 * nnz s2 \<le> r * (r - 1) + 2 * r" using cnt(2) tri by linarith
    also have "\<dots> = (r + 1) * (r + 1 - 1)" by (simp add: algebra_simps)
    finally have tri2: "2 * nnz s2 \<le> (r + 1) * (r + 1 - 1)" .
    have ih: "nnz s2 + int (\<Sum>q = nat (r + 1)..<nat sz. lower_entries mat q) \<le> nnz s' \<and>
              2 * nnz s' \<le> sz * (sz - 1)"
      using "1.IH"[of "row_init r s" s2] True rng b(1,2) s2(1) sz wf r0 small
        in_row_end(1)[OF s2(2)] n2 tri2 res nxt
      by simp
    have "nat r < nat sz" using True r0 by simp
    then have "(\<Sum>q = nat r..<nat sz. lower_entries mat q)
          = lower_entries mat (nat r) + (\<Sum>q = Suc (nat r)..<nat sz. lower_entries mat q)"
      by (simp add: sum.atLeast_Suc_lessThan)
    moreover have "Suc (nat r) = nat (r + 1)" using r0 by simp
    ultimately have "int (\<Sum>q = nat r..<nat sz. lower_entries mat q)
          = int (lower_entries mat (nat r))
            + int (\<Sum>q = nat (r + 1)..<nat sz. lower_entries mat q)"
      by simp
    then show ?thesis using ih cnt(1) by linarith
  qed
qed

subsection \<open>The whole call\<close>

lemma square_bound:
  assumes "0 \<le> n" and "n \<le> 46340"
  shows "n * n \<le> (2147395600 :: int)"
proof -
  have "n * n \<le> 46340 * n"
    using assms by (intro mult_right_mono) simp_all
  also have "\<dots> \<le> 46340 * 46340"
    using assms by simp
  finally show ?thesis by simp
qed

lemma count_nnz_fillin_well_formed:
  assumes wf: "well_formed mat"
  shows "\<exists>s. rows_loop mat (rows mat) 0 (initial_etree (rows mat)) = Inr s \<and>
             count_nnz_fillin mat = Inr (fill_count mat s) \<and>
             (rows mat \<le> 65536 \<longrightarrow>
                int (\<Sum>q = 0..<nat (rows mat). lower_entries mat q) \<le> nnz s \<and>
                2 * nnz s \<le> rows mat * (rows mat - 1))"
proof -
  have n0: "0 \<le> rows mat" using wf by (simp add: well_formed_def)
  have ok: "etree_ok (nat (rows mat)) (nat 0) (0 - 1) (initial_etree (rows mat))"
    using initial_etree_ok[OF n0] by simp
  obtain s where s: "rows_loop mat (rows mat) 0 (initial_etree (rows mat)) = Inr s"
    using rows_safe[OF refl wf _ n0 ok] by auto
  have c: "count_nnz_fillin mat = Inr (fill_count mat s)"
    using n0 s by (simp add: count_nnz_fillin_def)
  have "int (\<Sum>q = 0..<nat (rows mat). lower_entries mat q) \<le> nnz s \<and>
        2 * nnz s \<le> rows mat * (rows mat - 1)"
    if "rows mat \<le> 65536"
    using rows_count[OF refl wf _ n0 that ok _ _ s] by (simp add: initial_etree_def)
  then show ?thesis using s c by blast
qed

subsection \<open>The count before wrap-around\<close>

lemma wrap_succ: "((a + H) mod M - H + 1 + H) mod M = (a + 1 + H) mod (M::int)"
proof -
  have "(a + H) mod M - H + 1 + H = (a + H) mod M + 1"
    by simp
  moreover have "((a + H) mod M + 1) mod M = (a + H + 1) mod M"
    by (rule mod_add_left_eq)
  moreover have "a + H + 1 = a + 1 + H"
    by simp
  ultimately show ?thesis
    by simp
qed

lemma wrap_twice: "(2 * ((a + H) mod M - H) + b + H) mod M = (2 * a + b + H) mod (M::int)"
proof -
  have e1: "2 * ((a + H) mod M - H) + b + H = 2 * ((a + H) mod M) + (b - H)"
    by (simp add: algebra_simps)
  have e2: "(2 * ((a + H) mod M) + (b - H)) mod M = (2 * (a + H) + (b - H)) mod M"
    by (metis mod_add_left_eq mod_mult_right_eq)
  have e3: "2 * (a + H) + (b - H) = 2 * a + b + H"
    by (simp add: algebra_simps)
  show ?thesis
    unfolding e1 e2 e3 by (rule refl)
qed

lemma to_int32_succ: "to_int32 (to_int32 a + 1) = to_int32 (a + 1)"
  unfolding to_int32_def by (simp only: wrap_succ)

lemma to_int32_twice: "to_int32 (2 * to_int32 a + b) = to_int32 (2 * a + b)"
  unfolding to_int32_def by (simp only: wrap_twice)

lemma increments_Suc:
  "increments mat (Suc k) = increments mat k + (if runs_body (point_after mat k) then 1 else 0)"
  by (simp add: increments_def)

lemma point_after_Suc: "point_after mat (Suc k) = step mat (point_after mat k)"
  by (simp add: point_after_def)

lemma counter_ok_step:
  assumes "counter_ok mat N p"
  shows "counter_ok mat (N + (if runs_body p then 1 else 0)) (step mat p)"
proof (cases p)
  case (AtRow r s)
  then show ?thesis
    using assms by (simp add: Let_def row_init_fields fill_count_def to_int32_twice)
next
  case (AtEntry r i e s)
  then show ?thesis using assms by (simp add: Let_def)
next
  case (AtWalk r i e c s)
  have "to_int32 (to_int32 (int N) + 1) = to_int32 (int N + 1)"
    by (rule to_int32_succ)
  then show ?thesis
    using assms AtWalk by (simp add: Let_def walk_body_fields add.commute)
next
  case (Returned v)
  then show ?thesis using assms by simp
next
  case (Faulted f)
  then show ?thesis by simp
qed

lemma counter_ok_after: "counter_ok mat (increments mat k) (point_after mat k)"
proof (induction k)
  case 0
  show ?case
    by (simp add: point_after_def start_point_def increments_def initial_etree_def to_int32_def)
next
  case (Suc k)
  show ?case
    unfolding increments_Suc point_after_Suc by (rule counter_ok_step[OF Suc])
qed


lemma tagged_le: "tagged r s \<le> nat r"
proof -
  have "card {v \<in> {0..<nat r}. tags s ! v = r} \<le> card {0..<nat r}"
    by (rule card_mono) auto
  then show ?thesis by (simp add: tagged_def)
qed

lemma tagged_after_init:
  assumes "0 \<le> r" and "etree_ok N (nat r) (r - 1) s"
  shows "tagged r (row_init r s) = 0"
  using tagged_plus_untagged[of r "row_init r s"] untagged_after_init[OF assms]
  by (simp add: tagged_def)

lemma tagged_after_body:
  assumes "nat c < nat r" and "tags s ! nat c \<noteq> r" and "nat c < length (tags s)"
  shows "tagged r (walk_body r c s) = tagged r s + 1"
proof -
  have a: "tagged r (walk_body r c s) + untagged r (walk_body r c s) = nat r"
    using tagged_plus_untagged[of r "walk_body r c s"] by (simp add: tagged_def)
  have b: "tagged r s + untagged r s = nat r"
    using tagged_plus_untagged[of r s] by (simp add: tagged_def)
  have c: "untagged r (walk_body r c s) + 1 = untagged r s"
    by (rule untagged_after_body[OF assms])
  show ?thesis using a b c by linarith
qed

lemma lower_entries_le_tagged:
  assumes wf: "well_formed mat" and r0: "0 \<le> r" and rn: "r < rows mat"
    and tg: "\<forall>j. row_ptr mat ! nat r \<le> j \<and> j < row_ptr mat ! nat (r + 1) \<and>
                 col_idx mat ! nat j < r \<longrightarrow> tags s ! nat (col_idx mat ! nat j) = r"
  shows "lower_entries mat (nat r) \<le> tagged r s"
proof -
  define st where "st = row_ptr mat ! nat r"
  define e where "e = row_ptr mat ! nat (r + 1)"
  note b = well_formed_row_bounds[OF wf r0 rn]
  have cols: "\<forall>j. st \<le> j \<and> j < e \<longrightarrow> 0 \<le> col_idx mat ! nat j"
    using well_formed_cols_nonneg(1)[OF wf] b(3,4) by (simp add: st_def e_def)
  have tg': "\<forall>j. st \<le> j \<and> j < e \<and> col_idx mat ! nat j < r
               \<longrightarrow> tags s ! nat (col_idx mat ! nat j) = r"
    using tg by (simp add: st_def e_def)
  let ?T = "{v \<in> {0..<nat r}. tags s ! v = r}"
  have sub: "nat ` set (filter (\<lambda>c. c < int (nat r)) (row_cols mat (nat r))) \<subseteq> ?T"
  proof
    fix v assume "v \<in> nat ` set (filter (\<lambda>c. c < int (nat r)) (row_cols mat (nat r)))"
    then obtain c where c: "v = nat c" "c < r" "c \<in> set (row_cols mat (nat r))"
      using r0 by auto
    then obtain j where j: "c = col_idx mat ! j" "nat st \<le> j" "j < nat e"
      using r0 by (auto simp: row_cols_set st_def e_def nat_add_distrib)
    have "st \<le> int j \<and> int j < e" using j(2,3) b(3) by (simp add: st_def) linarith
    then have "tags s ! nat (col_idx mat ! nat (int j)) = r"
      using tg' c(2) j(1) by (metis nat_int)
    then have t: "tags s ! nat c = r" using j(1) by simp
    have "0 \<le> c" using cols \<open>st \<le> int j \<and> int j < e\<close> j(1) by (metis nat_int)
    then have "nat c < nat r" using c(2) by simp
    then show "v \<in> ?T" using t c(1) by simp
  qed
  have "inj_on nat (set (filter (\<lambda>c. c < int (nat r)) (row_cols mat (nat r))))"
  proof (rule inj_onI)
    fix x y
    assume x: "x \<in> set (filter (\<lambda>c. c < int (nat r)) (row_cols mat (nat r)))"
      and y: "y \<in> set (filter (\<lambda>c. c < int (nat r)) (row_cols mat (nat r)))"
      and eq: "nat x = nat y"
    have nonneg: "0 \<le> c" if "c \<in> set (row_cols mat (nat r))" for c
    proof -
      from that obtain j where j: "c = col_idx mat ! j" "nat st \<le> j" "j < nat e"
        using r0 by (auto simp: row_cols_set st_def e_def nat_add_distrib)
      have "st \<le> int j \<and> int j < e" using j(2,3) b(3) by (simp add: st_def) linarith
      then show ?thesis using cols j(1) by (metis nat_int)
    qed
    show "x = y" using nonneg[of x] nonneg[of y] x y eq by simp
  qed
  then have "lower_entries mat (nat r)
             = card (nat ` set (filter (\<lambda>c. c < int (nat r)) (row_cols mat (nat r))))"
    by (simp add: lower_entries_def card_image)
  also have "\<dots> \<le> card ?T"
    by (rule card_mono[OF _ sub]) simp
  finally show ?thesis by (simp add: tagged_def)
qed

lemma count_ok_row:
  assumes wf: "well_formed mat" and ok: "point_ok mat (AtRow r s)"
    and c: "count_ok mat N (AtRow r s)"
  shows "count_ok mat N (step mat (AtRow r s))"
proof (cases "r < rows mat")
  case False
  then have "r = rows mat" using ok by simp
  then show ?thesis using c by simp
next
  case True
  have r0: "0 \<le> r" and eo: "etree_ok (nat (rows mat)) (nat r) (r - 1) s"
    using ok by simp_all
  have rN: "r < int (nat (rows mat))" using True by simp
  note rng = etree_ok_in_range[OF eo r0 rN]
  note b = well_formed_row_bounds[OF wf r0 True]
  have st: "step mat (AtRow r s)
            = AtEntry r (row_ptr mat ! nat r) (row_ptr mat ! nat (r + 1)) (row_init r s)"
    using True rng b(1,2) by (simp add: Let_def)
  have t0: "tagged r (row_init r s) = 0"
    by (rule tagged_after_init[OF r0 eo])
  show ?thesis
    unfolding st using c True t0 by (simp add: row_progress_def)
qed

lemma count_ok_entry:
  assumes wf: "well_formed mat" and ok: "point_ok mat (AtEntry r i e s)"
    and c: "count_ok mat N (AtEntry r i e s)"
  shows "count_ok mat N (step mat (AtEntry r i e s))"
proof -
  have ir: "in_row (nat (rows mat)) r s" using ok by simp
  have r0: "0 \<le> r" by (rule in_row_lengths(5)[OF ir])
  have rp: "row_progress mat N r i e s" using c by simp
  then have rn: "r < rows mat" and e: "e = row_ptr mat ! nat (r + 1)"
    and i0: "row_ptr mat ! nat r \<le> i"
    and lo: "(\<Sum>q = 0..<nat r. lower_entries mat q) + tagged r s \<le> N"
    and hi: "2 * int N \<le> r * (r - 1) + 2 * int (tagged r s)"
    and tg: "\<forall>j. row_ptr mat ! nat r \<le> j \<and> j < i \<and> col_idx mat ! nat j < r
                 \<longrightarrow> tags s ! nat (col_idx mat ! nat j) = r"
    by (simp_all add: row_progress_def)
  note b = well_formed_row_bounds[OF wf r0 rn]
  show ?thesis
  proof (cases "i < e")
    case True
    have rng: "in_range i (col_idx mat)"
      using True i0 b(3,4) e by (simp add: in_range_def)
    show ?thesis
    proof (cases "col_idx mat ! nat i < r")
      case lt: True
      have "step mat (AtEntry r i e s) = AtWalk r i e (col_idx mat ! nat i) s"
        using True rng lt by (simp add: Let_def)
      then show ?thesis using rp True by simp
    next
      case False
      have st: "step mat (AtEntry r i e s) = AtEntry r (i + 1) e s"
        using True rng False by (simp add: Let_def)
      have "tags s ! nat (col_idx mat ! nat j) = r"
        if "row_ptr mat ! nat r \<le> j \<and> j < i + 1 \<and> col_idx mat ! nat j < r" for j
      proof (cases "j = i")
        case True
        then show ?thesis using that False by simp
      next
        case ne: False
        then show ?thesis using that tg by simp
      qed
      then have "row_progress mat N r (i + 1) e s"
        using rn e i0 lo hi by (simp add: row_progress_def)
      then show ?thesis unfolding st by simp
    qed
  next
    case False
    have st: "step mat (AtEntry r i e s) = AtRow (r + 1) s"
      using False by simp
    have "\<forall>j. row_ptr mat ! nat r \<le> j \<and> j < row_ptr mat ! nat (r + 1) \<and>
                 col_idx mat ! nat j < r \<longrightarrow> tags s ! nat (col_idx mat ! nat j) = r"
      using tg False e by simp
    then have le: "lower_entries mat (nat r) \<le> tagged r s"
      by (rule lower_entries_le_tagged[OF wf r0 rn])
    have "nat (r + 1) = Suc (nat r)" using r0 by simp
    then have a: "(\<Sum>q = 0..<nat (r + 1). lower_entries mat q) \<le> N"
      using lo le by simp
    have "int (tagged r s) \<le> r"
      using tagged_le[of r s] r0 by linarith
    then have "2 * int N \<le> r * (r - 1) + 2 * r" using hi by linarith
    also have "\<dots> = (r + 1) * (r + 1 - 1)" by (simp add: algebra_simps)
    finally have b2: "2 * int N \<le> (r + 1) * (r + 1 - 1)" .
    show ?thesis unfolding st using a b2 by simp
  qed
qed

lemma count_ok_walk:
  assumes wf: "well_formed mat" and ok: "point_ok mat (AtWalk r i e c s)"
    and c: "count_ok mat N (AtWalk r i e c s)"
  shows "count_ok mat (N + (if runs_body (AtWalk r i e c s) then 1 else 0))
           (step mat (AtWalk r i e c s))"
proof -
  have ir: "in_row (nat (rows mat)) r s" and cr: "c \<le> r" using ok by simp_all
  have r0: "0 \<le> r" by (rule in_row_lengths(5)[OF ir])
  have rp: "row_progress mat N r i e s" and ie: "i < e"
    and dj: "tags s ! nat (col_idx mat ! nat i) = r \<or> c = col_idx mat ! nat i"
    using c by simp_all
  from rp have rn: "r < rows mat" and e: "e = row_ptr mat ! nat (r + 1)"
    and i0: "row_ptr mat ! nat r \<le> i"
    and lo: "(\<Sum>q = 0..<nat r. lower_entries mat q) + tagged r s \<le> N"
    and hi: "2 * int N \<le> r * (r - 1) + 2 * int (tagged r s)"
    and tg: "\<forall>j. row_ptr mat ! nat r \<le> j \<and> j < i \<and> col_idx mat ! nat j < r
                 \<longrightarrow> tags s ! nat (col_idx mat ! nat j) = r"
    by (simp_all add: row_progress_def)
  show ?thesis
  proof (cases "in_range c (tags s)")
    case False
    then show ?thesis by simp
  next
    case rt: True
    then have c0: "0 \<le> c" and cN: "nat c < length (tags s)"
      by (simp_all add: in_range_def nat_less_iff)
    show ?thesis
    proof (cases "tags s ! nat c = r")
      case True
      have st: "step mat (AtWalk r i e c s) = AtEntry r (i + 1) e s"
        using rt True by simp
      have ti: "tags s ! nat (col_idx mat ! nat i) = r"
        using dj True by auto
      have "tags s ! nat (col_idx mat ! nat j) = r"
        if "row_ptr mat ! nat r \<le> j \<and> j < i + 1 \<and> col_idx mat ! nat j < r" for j
      proof (cases "j = i")
        case True
        then show ?thesis using ti by simp
      next
        case ne: False
        then show ?thesis using that tg by simp
      qed
      then have "row_progress mat N r (i + 1) e s"
        using rn e i0 lo hi by (simp add: row_progress_def)
      then show ?thesis unfolding st using rt True by simp
    next
      case False
      note rng = in_row_in_range[OF ir c0 cr]
      then have rb: "runs_body (AtWalk r i e c s)" using False by simp
      define s' where "s' = walk_body r c s"
      have st: "step mat (AtWalk r i e c s) = AtWalk r i e (parent s' ! nat c) s'"
        using rng False by (simp add: Let_def s'_def)
      have "c \<noteq> r" using in_row_lengths(6)[OF ir] False by auto
      then have lt: "nat c < nat r" using cr c0 by simp
      have t1: "tagged r s' = tagged r s + 1"
        unfolding s'_def by (rule tagged_after_body[OF lt False cN])
      have t': "tags s' = (tags s)[nat c := r]"
        by (simp add: s'_def walk_body_fields)
      have mono: "tags s' ! v = r" if "tags s ! v = r" for v
        using that cN by (cases "v = nat c") (simp_all add: t')
      have tc: "tags s' ! nat c = r" using cN by (simp add: t')
      have ti: "tags s' ! nat (col_idx mat ! nat i) = r"
        using dj mono tc by auto
      have tg': "\<forall>j. row_ptr mat ! nat r \<le> j \<and> j < i \<and> col_idx mat ! nat j < r
                 \<longrightarrow> tags s' ! nat (col_idx mat ! nat j) = r"
        using tg mono by blast
      have "row_progress mat (N + 1) r i e s'"
        using rn e i0 lo hi t1 tg' by (simp add: row_progress_def)
      then show ?thesis unfolding st using rb ie ti by simp
    qed
  qed
qed

lemma count_ok_step:
  assumes "well_formed mat" and "point_ok mat p" and "count_ok mat N p"
  shows "count_ok mat (N + (if runs_body p then 1 else 0)) (step mat p)"
proof (cases p)
  case (AtRow r s)
  then show ?thesis using count_ok_row[OF assms(1)] assms(2,3) by simp
next
  case (AtEntry r i e s)
  then show ?thesis using count_ok_entry[OF assms(1)] assms(2,3) by simp
next
  case (AtWalk r i e c s)
  then show ?thesis using count_ok_walk[OF assms(1)] assms(2,3) by simp
next
  case (Returned v)
  then show ?thesis using assms(3) by simp
next
  case (Faulted f)
  then show ?thesis by simp
qed

lemma count_ok_after:
  assumes "well_formed mat"
  shows "count_ok mat (increments mat k) (point_after mat k)"
proof (induction k)
  case 0
  have "0 \<le> rows mat" using assms by (simp add: well_formed_def)
  then show ?case
    by (simp add: point_after_def start_point_def increments_def)
next
  case (Suc k)
  show ?case
    unfolding increments_Suc point_after_Suc
    by (rule count_ok_step[OF assms point_ok_after Suc])
qed

text \<open>
  The call on a well-formed pattern: it returns after finitely many steps, the value
  returned is \<open>2 * N + n\<close> wrapped to \<open>int\<close> for the number \<open>N\<close> of increments made, and
  \<open>N\<close> lies between the number of entries below the diagonal and \<open>n * (n - 1) / 2\<close>.
\<close>

lemma sweep_result:
  assumes wf: "well_formed mat"
  shows "\<exists>k v. point_after mat k = Returned v \<and> count_nnz_fillin mat = Inr v \<and>
               v = to_int32 (2 * int (increments mat k) + rows mat) \<and>
               (\<Sum>q = 0..<nat (rows mat). lower_entries mat q) \<le> increments mat k \<and>
               2 * int (increments mat k) \<le> rows mat * (rows mat - 1)"
proof -
  obtain s where s: "count_nnz_fillin mat = Inr (fill_count mat s)"
    using count_nnz_fillin_well_formed[OF wf] by blast
  obtain k where k: "point_after mat k = Returned (fill_count mat s)"
    using machine_reaches_result[of mat] s by auto
  have a: "fill_count mat s = to_int32 (2 * int (increments mat k) + rows mat)"
    using counter_ok_after[of mat k] k by simp
  have b: "(\<Sum>q = 0..<nat (rows mat). lower_entries mat q) \<le> increments mat k \<and>
           2 * int (increments mat k) \<le> rows mat * (rows mat - 1)"
    using count_ok_after[OF wf, of k] k by simp
  show ?thesis using s k a b by blast
qed

section \<open>The elimination-tree counter on dense patterns\<close>

lemma dense_walk_step:
  assumes dw: "dense_walk N r m c0 c s" and lt: "c < m" and small: "r \<le> 65535"
  shows "dense_walk N r m c0 (c + 1) (walk_body r c s)"
    and "parent (walk_body r c s) ! nat c = c + 1"
    and "tags s ! nat c \<noteq> r"
proof -
  have ok: "in_row N r s" and c0: "0 \<le> c0" "c0 \<le> c" and mr: "m \<le> r"
    and tg: "\<And>v. v < nat r + 1 \<Longrightarrow> (tags s ! v = r) = (c0 \<le> int v \<and> int v < c \<or> m \<le> int v)"
    and ch: "\<And>v. int v + 1 < r \<Longrightarrow> parent s ! v = int v + 1"
    and top: "0 < r \<Longrightarrow> parent s ! nat (r - 1) = (if tags s ! nat (r - 1) = r then r else - 1)"
    and pr: "parent s ! nat r = - 1"
    and cnt: "2 * nnz s = r * (r - 1) + 2 * (r - m) + 2 * (c - c0)"
    using dw by (simp_all add: dense_walk_def)
  have cge: "0 \<le> c" and cr: "c < r" using c0 lt mr by simp_all
  note L = in_row_lengths[OF ok]
  have cN: "nat c < N" using cr cge L(4) by linarith
  have untag: "tags s ! nat c \<noteq> r"
    using tg[of "nat c"] cge cr lt by simp
  then show "tags s ! nat c \<noteq> r" .
  have pc: "parent (walk_body r c s) ! nat c = c + 1"
  proof (cases "c + 1 < r")
    case True
    then have "parent s ! nat c = c + 1" using ch[of "nat c"] cge by simp
    then show ?thesis using cge by (simp add: walk_body_fields)
  next
    case False
    then have cr1: "c = r - 1" using cr by simp
    then have "parent s ! nat c = - 1" using top untag cr cge by simp
    then show ?thesis using cN L(1) cr1 by (simp add: walk_body_fields)
  qed
  then show "parent (walk_body r c s) ! nat c = c + 1" .
  have ok': "in_row N r (walk_body r c s)"
    by (rule in_row_after_body(1)[OF ok cge cr])
  have tg': "(tags (walk_body r c s) ! v = r) = (c0 \<le> int v \<and> int v < c + 1 \<or> m \<le> int v)"
    if "v < nat r + 1" for v
  proof (cases "v = nat c")
    case True
    then show ?thesis using cN L(2) c0 cge by (simp add: walk_body_fields)
  next
    case False
    then have "int v \<noteq> c" using cge by auto
    then show ?thesis using tg[OF that] False by (auto simp: walk_body_fields)
  qed
  have ch': "parent (walk_body r c s) ! v = int v + 1" if "int v + 1 < r" for v
  proof (cases "v = nat c")
    case True
    then show ?thesis using pc cge by simp
  next
    case False
    then show ?thesis using ch[OF that] by (simp add: walk_body_fields)
  qed
  have top': "parent (walk_body r c s) ! nat (r - 1)
              = (if tags (walk_body r c s) ! nat (r - 1) = r then r else - 1)" if "0 < r"
  proof (cases "c = r - 1")
    case True
    then show ?thesis using pc cN L(2) by (simp add: walk_body_fields)
  next
    case False
    then have "nat (r - 1) \<noteq> nat c" using cge that by simp
    then show ?thesis using top[OF that] by (simp add: walk_body_fields)
  qed
  have pr': "parent (walk_body r c s) ! nat r = - 1"
    using pr cr cge by (simp add: walk_body_fields)
  have tb: "r * (r - 1) \<le> 65535 * 65534"
    using triangle_bound[OF L(5) small] .
  have tn: "0 \<le> r * (r - 1)"
    using cr cge by (intro mult_nonneg_nonneg) simp_all
  define X where "X = r * (r - 1)"
  have a: "2 * nnz s = X + 2 * (r - m) + 2 * (c - c0)" "X \<le> 4294770690" "0 \<le> X"
    using cnt tb tn by (simp_all add: X_def)
  have "nnz s + 1 \<le> 2147483647"
    using a small mr c0 lt by simp
  moreover have "0 \<le> nnz s"
    using a small mr c0 lt by simp
  ultimately have "nnz s + 1 \<le> 2147483647" "0 \<le> nnz s" by blast+
  then have n1: "nnz (walk_body r c s) = nnz s + 1"
    by (simp add: walk_body_fields to_int32_id)
  have cnt': "2 * nnz (walk_body r c s) = r * (r - 1) + 2 * (r - m) + 2 * (c + 1 - c0)"
    using cnt n1 by simp
  show "dense_walk N r m c0 (c + 1) (walk_body r c s)"
    unfolding dense_walk_def
    using ok' c0 lt mr tg' ch' top' pr' cnt' by simp
qed

lemma dense_walk_finish:
  "dense_walk N r m c0 c s \<Longrightarrow> r \<le> 65535 \<Longrightarrow>
   \<exists>s'. walk r c s = Inr s' \<and> dense_walk N r c0 c0 c0 s'"
proof (induction r c s rule: walk.induct)
  case (1 r c s)
  note dw = "1.prems"(1) and small = "1.prems"(2)
  have ok: "in_row N r s" and c0: "0 \<le> c0" "c0 \<le> c" and cm: "c \<le> m" and mr: "m \<le> r"
    and tg: "\<And>v. v < nat r + 1 \<Longrightarrow> (tags s ! v = r) = (c0 \<le> int v \<and> int v < c \<or> m \<le> int v)"
    using dw by (simp_all add: dense_walk_def)
  have cge: "0 \<le> c" and cr: "c \<le> r" using c0 cm mr by simp_all
  note rng = in_row_in_range[OF ok cge cr]
  show ?case
  proof (cases "c = m")
    case True
    then have "tags s ! nat c = r" using tg[of "nat c"] cge cr by simp
    then have w: "walk r c s = Inr s"
      using rng by (subst walk.simps) simp
    have "dense_walk N r c0 c0 c0 s"
      using dw True unfolding dense_walk_def by auto
    then show ?thesis using w by simp
  next
    case False
    then have lt: "c < m" using cm by simp
    note st = dense_walk_step[OF dw lt small]
    have w: "walk r c s = walk r (c + 1) (walk_body r c s)"
      using rng st(2,3) by (subst walk.simps) (simp add: Let_def)
    have "\<exists>s'. walk r (c + 1) (walk_body r c s) = Inr s' \<and> dense_walk N r c0 c0 c0 s'"
      using "1.IH"[of "walk_body r c s"] rng st small by simp
    then show ?thesis using w by simp
  qed
qed

lemma dense_walk_from_entry:
  assumes dw: "dense_walk N r m m m s" and c0: "0 \<le> c" and cr: "c < r" and small: "r \<le> 65535"
  shows "\<exists>s'. walk r c s = Inr s' \<and> dense_walk N r (min m c) (min m c) (min m c) s'"
proof (cases "c < m")
  case True
  have "dense_walk N r m c c s"
    using dw c0 True unfolding dense_walk_def by auto
  from dense_walk_finish[OF this small] True show ?thesis by (simp add: min_def)
next
  case False
  have ok: "in_row N r s"
    and tg: "\<And>v. v < nat r + 1 \<Longrightarrow> (tags s ! v = r) = (m \<le> int v \<and> int v < m \<or> m \<le> int v)"
    using dw by (simp_all add: dense_walk_def)
  have "tags s ! nat c = r" using tg[of "nat c"] c0 cr False by simp
  moreover note in_row_in_range[OF ok c0] 
  ultimately have "walk r c s = Inr s"
    using cr by (subst walk.simps) simp
  then show ?thesis using dw False by (simp add: min_def)
qed

lemma dense_entries:
  "dense_walk N r m m m s \<Longrightarrow> r \<le> 65535 \<Longrightarrow> 0 \<le> i \<Longrightarrow>
   e \<le> int (length (col_idx mat)) \<Longrightarrow>
   (\<forall>j. i \<le> j \<and> j < e \<longrightarrow> 0 \<le> col_idx mat ! nat j) \<Longrightarrow>
   \<exists>s' m'. entries_loop mat r i e s = Inr s' \<and> dense_walk N r m' m' m' s' \<and> m' \<le> m \<and>
           (\<forall>j. i \<le> j \<and> j < e \<and> col_idx mat ! nat j < r \<longrightarrow> m' \<le> col_idx mat ! nat j)"
proof (induction mat r i e s arbitrary: m rule: entries_loop.induct)
  case (1 mat r i e s)
  note dw = "1.prems"(1) and small = "1.prems"(2) and i0 = "1.prems"(3) and eN = "1.prems"(4)
    and cols = "1.prems"(5)
  show ?case
  proof (cases "i < e")
    case False
    then have "entries_loop mat r i e s = Inr s"
      by (subst entries_loop.simps) simp
    then show ?thesis using dw False by auto
  next
    case True
    then have rng: "in_range i (col_idx mat)"
      using i0 eN by (simp add: in_range_def)
    define c where "c = col_idx mat ! nat i"
    have c0: "0 \<le> c" using cols True by (simp add: c_def)
    have rest: "\<forall>j. i + 1 \<le> j \<and> j < e \<longrightarrow> 0 \<le> col_idx mat ! nat j"
      using cols by simp
    show ?thesis
    proof (cases "c < r")
      case False
      have el: "entries_loop mat r i e s = entries_loop mat r (i + 1) e s"
        using True rng False by (subst entries_loop.simps) (simp add: c_def Let_def)
      obtain s' m' where s': "entries_loop mat r (i + 1) e s = Inr s'"
        "dense_walk N r m' m' m' s'" "m' \<le> m"
        and low: "\<forall>j. i + 1 \<le> j \<and> j < e \<and> col_idx mat ! nat j < r \<longrightarrow> m' \<le> col_idx mat ! nat j"
        using "1.IH"(2)[of c m] True rng False dw small i0 eN rest
        by (auto simp: c_def)
      have "m' \<le> col_idx mat ! nat j" if "i \<le> j \<and> j < e \<and> col_idx mat ! nat j < r" for j
      proof (cases "j = i")
        case True
        then show ?thesis using that False by (simp add: c_def)
      next
        case False
        then show ?thesis using that low by simp
      qed
      then show ?thesis using el s' by auto
    next
      case lt: True
      obtain s1 where s1: "walk r c s = Inr s1"
        "dense_walk N r (min m c) (min m c) (min m c) s1"
        using dense_walk_from_entry[OF dw c0 lt small] by blast
      have el: "entries_loop mat r i e s = entries_loop mat r (i + 1) e s1"
        using True rng lt s1(1) by (subst entries_loop.simps) (simp add: c_def Let_def)
      obtain s' m' where s': "entries_loop mat r (i + 1) e s1 = Inr s'"
        "dense_walk N r m' m' m' s'" "m' \<le> min m c"
        and low: "\<forall>j. i + 1 \<le> j \<and> j < e \<and> col_idx mat ! nat j < r \<longrightarrow> m' \<le> col_idx mat ! nat j"
        using "1.IH"(1)[of c s1 "min m c"] True rng lt s1 small i0 eN rest
        by (auto simp: c_def)
      have "m' \<le> col_idx mat ! nat j" if "i \<le> j \<and> j < e \<and> col_idx mat ! nat j < r" for j
      proof (cases "j = i")
        case True
        then show ?thesis using s'(3) by (simp add: c_def)
      next
        case False
        then show ?thesis using that low by simp
      qed
      then show ?thesis using el s' by auto
    qed
  qed
qed

lemma dense_after_init:
  assumes "dense_between N r s" and "r < int N"
  shows "dense_walk N r r r r (row_init r s)"
proof -
  have r0: "0 \<le> r" and ok: "etree_ok N (nat r) (r - 1) s"
    and tg: "\<And>v. v < nat r \<Longrightarrow> tags s ! v = r - 1"
    and ch: "\<And>v. int v + 1 < r \<Longrightarrow> parent s ! v = int v + 1"
    and top: "0 < r \<Longrightarrow> parent s ! nat (r - 1) = - 1"
    and cnt: "2 * nnz s = r * (r - 1)"
    using assms(1) by (simp_all add: dense_between_def)
  have ir: "in_row N r (row_init r s)"
    by (rule in_row_after_init[OF r0 assms(2) ok])
  note L = in_row_lengths[OF ir]
  have lens: "nat r < length (parent s)" "nat r < length (tags s)"
    using L(1,2,4) by (simp_all add: row_init_fields)
  have tg': "(tags (row_init r s) ! v = r) = (r \<le> int v \<and> int v < r \<or> r \<le> int v)"
    if "v < nat r + 1" for v
  proof (cases "v = nat r")
    case True
    then show ?thesis using lens r0 by (simp add: row_init_fields)
  next
    case False
    then have "v < nat r" using that by simp
    then show ?thesis using tg[of v] False by (simp add: row_init_fields)
  qed
  have ch': "parent (row_init r s) ! v = int v + 1" if "int v + 1 < r" for v
    using ch[OF that] that by (simp add: row_init_fields)
  have top': "parent (row_init r s) ! nat (r - 1)
              = (if tags (row_init r s) ! nat (r - 1) = r then r else - 1)" if "0 < r"
  proof -
    have ne: "nat (r - 1) \<noteq> nat r" and lt: "nat (r - 1) < nat r" using that by simp_all
    have "tags s ! nat (r - 1) = r - 1" using tg[OF lt] .
    then show ?thesis using top[OF that] ne by (simp add: row_init_fields)
  qed
  have pr: "parent (row_init r s) ! nat r = - 1"
    using lens by (simp add: row_init_fields)
  show ?thesis
    unfolding dense_walk_def
    using ir r0 tg' ch' top' pr cnt by (simp add: row_init_fields)
qed

lemma dense_row_end:
  assumes "dense_walk N r 0 0 0 s"
  shows "dense_between N (r + 1) s"
proof -
  have ok: "in_row N r s"
    and tg: "\<And>v. v < nat r + 1 \<Longrightarrow> tags s ! v = r"
    and ch: "\<And>v. int v + 1 < r \<Longrightarrow> parent s ! v = int v + 1"
    and top: "0 < r \<Longrightarrow> parent s ! nat (r - 1) = (if tags s ! nat (r - 1) = r then r else - 1)"
    and pr: "parent s ! nat r = - 1"
    and cnt: "2 * nnz s = r * (r - 1) + 2 * r"
    using assms by (simp_all add: dense_walk_def)
  note L = in_row_lengths[OF ok]
  have n1: "nat (r + 1) = nat r + 1" using L(5) by simp
  have ch': "parent s ! v = int v + 1" if "int v + 1 < r + 1" for v
  proof (cases "int v + 1 < r")
    case True
    then show ?thesis by (rule ch)
  next
    case False
    then have v: "int v = r - 1" "0 < r" using that by simp_all
    then have nv: "nat (r - 1) = v" by simp
    have "tags s ! v = r" using tg[of v] v by simp
    then show ?thesis using top[OF v(2)] nv v(1) by simp
  qed
  have "2 * nnz s = (r + 1) * (r + 1 - 1)"
    using cnt by (simp add: algebra_simps)
  then show ?thesis
    unfolding dense_between_def
    using in_row_end(1)[OF ok] L(5) tg ch' pr n1 by simp
qed

lemma dense_row:
  assumes dr: "column0_rows mat" and rn: "r < rows mat" and small: "rows mat \<le> 65536"
    and db: "dense_between (nat (rows mat)) r s"
  shows "\<exists>s2. entries_loop mat r (row_ptr mat ! nat r) (row_ptr mat ! nat (r + 1)) (row_init r s)
               = Inr s2 \<and> dense_between (nat (rows mat)) (r + 1) s2"
proof -
  define st where "st = row_ptr mat ! nat r"
  define e where "e = row_ptr mat ! nat (r + 1)"
  have wf: "well_formed mat" using dr by (simp add: column0_rows_def)
  have r0: "0 \<le> r" using db by (simp add: dense_between_def)
  note b = well_formed_row_bounds[OF wf r0 rn]
  have cols: "\<forall>j. st \<le> j \<and> j < e \<longrightarrow> 0 \<le> col_idx mat ! nat j"
    using well_formed_cols_nonneg(1)[OF wf] b(3,4) by (simp add: st_def e_def)
  have dw: "dense_walk (nat (rows mat)) r r r r (row_init r s)"
    using dense_after_init[OF db] rn by simp
  have r65: "r \<le> 65535" using rn small by simp
  obtain s2 m' where s2: "entries_loop mat r st e (row_init r s) = Inr s2"
    "dense_walk (nat (rows mat)) r m' m' m' s2"
    and low: "\<forall>j. st \<le> j \<and> j < e \<and> col_idx mat ! nat j < r \<longrightarrow> m' \<le> col_idx mat ! nat j"
    using dense_entries[OF dw r65 _ _ cols] b(3,4) by (auto simp: st_def e_def)
  have m0: "0 \<le> m'" and mr: "m' \<le> r" using s2(2) by (simp_all add: dense_walk_def)
  have "m' = 0"
  proof (cases "r = 0")
    case True
    then show ?thesis using m0 mr by simp
  next
    case False
    then have "nat r \<in> {1..<nat (rows mat)}"
      using r0 rn by simp
    then have "0 \<in> set (row_cols mat (nat r))"
      using dr unfolding column0_rows_def by blast
    then obtain j where j: "col_idx mat ! j = 0" "nat st \<le> j" "j < nat e"
      using r0 by (auto simp: row_cols_set st_def e_def nat_add_distrib)
    have "st \<le> int j \<and> int j < e" using j(2,3) b(3) by (simp add: st_def) linarith
    moreover have "col_idx mat ! nat (int j) < r" using j(1) False r0 by simp
    ultimately have "m' \<le> col_idx mat ! nat (int j)" using low by blast
    then show ?thesis using j(1) m0 by simp
  qed
  then have "dense_between (nat (rows mat)) (r + 1) s2"
    using dense_row_end s2(2) by simp
  then show ?thesis using s2(1) by (auto simp: st_def e_def)
qed

lemma dense_rows_loop:
  "sz = rows mat \<Longrightarrow> column0_rows mat \<Longrightarrow> sz \<le> 65536 \<Longrightarrow> r \<le> sz \<Longrightarrow>
   dense_between (nat sz) r s \<Longrightarrow>
   \<exists>s'. rows_loop mat sz r s = Inr s' \<and> 2 * nnz s' = sz * (sz - 1)"
proof (induction mat sz r s rule: rows_loop.induct)
  case (1 mat sz r s)
  note sz = "1.prems"(1) and dr = "1.prems"(2) and small = "1.prems"(3) and rn = "1.prems"(4)
    and db = "1.prems"(5)
  have wf: "well_formed mat" using dr by (simp add: column0_rows_def)
  have r0: "0 \<le> r" and ok: "etree_ok (nat (rows mat)) (nat r) (r - 1) s"
    and cnt: "2 * nnz s = r * (r - 1)"
    using db sz by (simp_all add: dense_between_def)
  show ?case
  proof (cases "r < sz")
    case False
    then have "r = sz" using rn by simp
    moreover have "rows_loop mat sz r s = Inr s"
      using False by (subst rows_loop.simps) simp
    ultimately show ?thesis using cnt by simp
  next
    case True
    have rsz: "r < rows mat" and rN: "r < int (nat (rows mat))" using True sz by simp_all
    note rng = etree_ok_in_range[OF ok r0 rN]
    note b = well_formed_row_bounds[OF wf r0 rsz]
    obtain s2 where s2:
      "entries_loop mat r (row_ptr mat ! nat r) (row_ptr mat ! nat (r + 1)) (row_init r s) = Inr s2"
      "dense_between (nat (rows mat)) (r + 1) s2"
      using dense_row[OF dr rsz _ ] db small sz by blast
    have nxt: "rows_loop mat sz r s = rows_loop mat sz (r + 1) s2"
      using rows_loop_next[OF wf r0 rsz ok s2(1)] sz by simp
    have "\<exists>s'. rows_loop mat sz (r + 1) s2 = Inr s' \<and> 2 * nnz s' = sz * (sz - 1)"
      using "1.IH"[of "row_init r s" s2] True rng b(1,2) s2 sz dr small
      by simp
    then show ?thesis using nxt by simp
  qed
qed

text \<open>
  On a pattern of order \<open>n\<close>, up to 65536, whose rows all store column 0, the counter
  returns \<open>n * n\<close> reduced to 32 bits.
\<close>

lemma count_nnz_fillin_column0:
  assumes "column0_rows mat" and "rows mat \<le> 65536"
  shows "count_nnz_fillin mat = Inr (to_int32 (rows mat * rows mat))"
proof -
  have wf: "well_formed mat" using assms(1) by (simp add: column0_rows_def)
  have n0: "0 \<le> rows mat" using wf by (simp add: well_formed_def)
  have "dense_between (nat (rows mat)) 0 (initial_etree (rows mat))"
    using initial_etree_ok[OF n0] by (simp add: dense_between_def initial_etree_def)
  then obtain s where s: "rows_loop mat (rows mat) 0 (initial_etree (rows mat)) = Inr s"
    "2 * nnz s = rows mat * (rows mat - 1)"
    using dense_rows_loop[OF refl assms(1,2) n0] by blast
  have "2 * nnz s + rows mat = rows mat * rows mat"
    using s(2) by (simp add: algebra_simps)
  then show ?thesis
    using n0 s(1) by (simp add: count_nnz_fillin_def fill_count_def)
qed

subsection \<open>The dense lower-triangular pattern\<close>

lemma triangle_mono: "a \<le> b \<Longrightarrow> triangle a \<le> triangle b"
  by (induction b) (auto simp: le_Suc_eq)

lemma dense_row_cols_facts:
  "length (dense_row_cols r) = r + 1"
  "c \<le> r \<Longrightarrow> dense_row_cols r ! c = int c"
  "x \<in> set (dense_row_cols r) \<Longrightarrow> 0 \<le> x \<and> x \<le> int r"
proof -
  show "length (dense_row_cols r) = r + 1"
    by (simp add: dense_row_cols_def)
  show "dense_row_cols r ! c = int c" if "c \<le> r"
  proof -
    have "c < length [0..<r + 1]" using that by simp
    then have "map int [0..<r + 1] ! c = int ([0..<r + 1] ! c)" by (rule nth_map)
    also have "[0..<r + 1] ! c = c" using that by (simp del: upt_Suc)
    finally show ?thesis by (simp only: dense_row_cols_def)
  qed
  show "0 \<le> x \<and> x \<le> int r" if "x \<in> set (dense_row_cols r)"
    using that by (auto simp: dense_row_cols_def)
qed

lemma length_dense_cols: "length (concat (map dense_row_cols [0..<n])) = triangle n"
  by (induction n) (simp_all add: dense_row_cols_facts(1))

lemma nth_dense_cols:
  "r < n \<Longrightarrow> c \<le> r \<Longrightarrow> concat (map dense_row_cols [0..<n]) ! (triangle r + c) = int c"
proof (induction n)
  case 0
  then show ?case by simp
next
  case (Suc n)
  have split: "concat (map dense_row_cols [0..<Suc n])
               = concat (map dense_row_cols [0..<n]) @ dense_row_cols n"
    by simp
  show ?case
  proof (cases "r < n")
    case True
    have "triangle r + c < triangle (Suc r)" using Suc.prems(2) by simp
    also have "\<dots> \<le> triangle n" using True by (intro triangle_mono) simp
    finally have "triangle r + c < length (concat (map dense_row_cols [0..<n]))"
      by (simp only: length_dense_cols)
    then have "concat (map dense_row_cols [0..<Suc n]) ! (triangle r + c)
               = concat (map dense_row_cols [0..<n]) ! (triangle r + c)"
      by (simp only: split nth_append if_True)
    then show ?thesis using Suc.IH[OF True Suc.prems(2)] by simp
  next
    case False
    then have rn: "r = n" using Suc.prems(1) by simp
    have "(concat (map dense_row_cols [0..<n]) @ dense_row_cols n)
            ! (length (concat (map dense_row_cols [0..<n])) + c) = dense_row_cols n ! c"
      by (rule nth_append_length_plus)
    then have "concat (map dense_row_cols [0..<Suc n]) ! (triangle r + c) = dense_row_cols n ! c"
      by (simp only: split rn length_dense_cols)
    also have "\<dots> = int c"
      using Suc.prems(2) rn by (simp add: dense_row_cols_facts(2))
    finally show ?thesis .
  qed
qed

lemma dense_csr_fields:
  "rows (dense_csr n) = int n"
  "length (row_ptr (dense_csr n)) = n + 1"
  "length (col_idx (dense_csr n)) = triangle n"
  "r \<le> n \<Longrightarrow> row_ptr (dense_csr n) ! r = int (triangle r)"
proof -
  show "rows (dense_csr n) = int n" "length (row_ptr (dense_csr n)) = n + 1"
    by (simp_all add: dense_csr_def)
  show "length (col_idx (dense_csr n)) = triangle n"
    by (simp add: dense_csr_def length_dense_cols)
  show "row_ptr (dense_csr n) ! r = int (triangle r)" if "r \<le> n"
  proof -
    have "r < length [0..<n + 1]" using that by simp
    then have "map (\<lambda>r. int (triangle r)) [0..<n + 1] ! r = int (triangle ([0..<n + 1] ! r))"
      by (rule nth_map)
    also have "[0..<n + 1] ! r = r" using that by (simp del: upt_Suc)
    finally show ?thesis by (simp add: dense_csr_def del: upt_Suc)
  qed
qed

lemma dense_csr_well_formed: "well_formed (dense_csr n)"
proof -
  have "0 \<le> c \<and> c < int n" if "c \<in> set (col_idx (dense_csr n))" for c
  proof -
    from that obtain r where "r < n" "c \<in> set (dense_row_cols r)"
      by (auto simp: dense_csr_def)
    then show ?thesis using dense_row_cols_facts(3)[of c r] by simp
  qed
  moreover have "row_ptr (dense_csr n) ! r \<le> row_ptr (dense_csr n) ! (r + 1)" if "r < n" for r
    using that by (simp add: dense_csr_fields(4))
  ultimately show ?thesis
    unfolding well_formed_def
    by (simp add: dense_csr_fields)
qed

lemma dense_rows_column0: "dense_rows mat \<Longrightarrow> column0_rows mat"
  unfolding dense_rows_def column0_rows_def
proof (intro conjI ballI)
  assume a: "well_formed mat \<and>
     (\<forall>r \<in> {0..<nat (rows mat)}. \<forall>c \<in> {0..<r}. int c \<in> set (row_cols mat r))"
  then show "well_formed mat" by simp
  fix r assume "r \<in> {1..<nat (rows mat)}"
  then have "r \<in> {0..<nat (rows mat)}" "(0 :: nat) \<in> {0..<r}" by simp_all
  then have "int 0 \<in> set (row_cols mat r)" using a by blast
  then show "0 \<in> set (row_cols mat r)" by simp
qed

lemma dense_csr_dense: "dense_rows (dense_csr n)"
proof -
  have "int c \<in> set (row_cols (dense_csr n) r)" if "r < n" and "c < r" for r c
  proof -
    have v: "int c = col_idx (dense_csr n) ! (triangle r + c)"
      using nth_dense_cols[of r n c] that by (simp add: dense_csr_def)
    have "triangle r + c \<in> {triangle r..<triangle (r + 1)}"
      using that by simp
    then have "triangle r + c \<in> {nat (row_ptr (dense_csr n) ! r)..<nat (row_ptr (dense_csr n) ! (r + 1))}"
      using that by (simp add: dense_csr_fields(4) del: triangle.simps)
    then show ?thesis
      unfolding row_cols_set using v by (rule image_eqI[rotated])
  qed
  then show ?thesis
    unfolding dense_rows_def
    using dense_csr_well_formed[of n] by (simp add: dense_csr_fields)
qed


subsection \<open>The arrowhead pattern\<close>

lemma length_arrow_tail: "length (concat (map (\<lambda>k. [0, int k + 1]) [0..<m])) = 2 * m"
  by (induction m) simp_all

lemma nth_arrow_tail:
  "k < m \<Longrightarrow> concat (map (\<lambda>k. [0, int k + 1]) [0..<m]) ! (2 * k) = (0 :: int)"
proof (induction m)
  case 0
  then show ?case by simp
next
  case (Suc m)
  let ?g = "\<lambda>k. [0, int k + 1]"
  have split: "concat (map ?g [0..<Suc m]) = concat (map ?g [0..<m]) @ ?g m"
    by simp
  show ?case
  proof (cases "k < m")
    case True
    then have "2 * k < length (concat (map ?g [0..<m]))"
      by (simp add: length_arrow_tail)
    then have "concat (map ?g [0..<Suc m]) ! (2 * k) = concat (map ?g [0..<m]) ! (2 * k)"
      by (simp only: split nth_append if_True)
    then show ?thesis using Suc.IH[OF True] by simp
  next
    case False
    then have km: "k = m" using Suc.prems by simp
    have "(concat (map ?g [0..<m]) @ ?g m) ! (length (concat (map ?g [0..<m])) + 0) = ?g m ! 0"
      by (rule nth_append_length_plus)
    then show ?thesis
      by (simp only: split km length_arrow_tail) simp
  qed
qed

lemma arrow_csr_fields:
  "rows (arrow_csr n) = int n"
  "length (row_ptr (arrow_csr n)) = n + 1"
  "length (col_idx (arrow_csr n)) = n + 2 * (n - 1)"
  "row_ptr (arrow_csr n) ! 0 = 0"
  "r < n \<Longrightarrow> row_ptr (arrow_csr n) ! (r + 1) = int (n + 2 * r)"
  by (simp_all add: arrow_csr_def length_arrow_tail)

lemma arrow_csr_well_formed: "well_formed (arrow_csr n)"
proof -
  have cols: "0 \<le> c \<and> c < int n" if "c \<in> set (col_idx (arrow_csr n))" for c
  proof -
    from that have "c \<in> int ` {0..<n} \<or> (\<exists>k < n - 1. c = 0 \<or> c = int k + 1)"
      by (auto simp: arrow_csr_def split: if_splits)
    then show ?thesis by auto
  qed
  have mono: "row_ptr (arrow_csr n) ! r \<le> row_ptr (arrow_csr n) ! (r + 1)" if "r < n" for r
  proof (cases r)
    case 0
    then show ?thesis using that arrow_csr_fields(5)[of 0 n] by (simp add: arrow_csr_fields(4))
  next
    case (Suc q)
    then show ?thesis
      using that arrow_csr_fields(5)[of q n] arrow_csr_fields(5)[of "Suc q" n] by simp
  qed
  have last: "row_ptr (arrow_csr n) ! n \<le> int (length (col_idx (arrow_csr n)))"
  proof (cases n)
    case 0
    then show ?thesis by (simp add: arrow_csr_def)
  next
    case (Suc q)
    then show ?thesis
      using arrow_csr_fields(5)[of q n] by (simp add: arrow_csr_fields(3))
  qed
  show ?thesis
    unfolding well_formed_def
    using cols mono last by (simp add: arrow_csr_fields)
qed

lemma arrow_csr_column0: "column0_rows (arrow_csr n)"
proof -
  have "0 \<in> set (row_cols (arrow_csr n) r)" if rr: "r \<in> {1..<n}" for r
  proof -
    obtain q where q: "r = Suc q" "q < n - 1" "Suc q < n"
      using rr by (cases r) auto
    have lo: "row_ptr (arrow_csr n) ! r = int (n + 2 * q)"
      using arrow_csr_fields(5)[of q n] q by simp
    have hi: "row_ptr (arrow_csr n) ! (r + 1) = int (n + 2 * Suc q)"
      using arrow_csr_fields(5)[of "Suc q" n] q by simp
    have "col_idx (arrow_csr n) ! (length (map int [0..<n]) + 2 * q)
          = concat (map (\<lambda>k. [0, int k + 1]) [0..<n - 1]) ! (2 * q)"
      unfolding arrow_csr_def by (simp only: csr.simps nth_append_length_plus)
    then have v: "0 = col_idx (arrow_csr n) ! (n + 2 * q)"
      using nth_arrow_tail[OF q(2)] by simp
    have lo': "nat (row_ptr (arrow_csr n) ! r) = n + 2 * q"
      by (simp only: lo nat_int)
    have hi': "nat (row_ptr (arrow_csr n) ! (r + 1)) = n + 2 * Suc q"
      by (simp only: hi nat_int)
    have "n + 2 * q \<in> {nat (row_ptr (arrow_csr n) ! r)..<nat (row_ptr (arrow_csr n) ! (r + 1))}"
      by (simp only: lo' hi') simp
    then show ?thesis
      unfolding row_cols_set using v by (rule image_eqI[rotated])
  qed
  then show ?thesis
    unfolding column0_rows_def
    using arrow_csr_well_formed[of n] by (simp add: arrow_csr_fields)
qed







subsection \<open>Patterns with nothing below the diagonal\<close>

lemma runs_body_at_walk: "runs_body p \<Longrightarrow> at_walk p \<noteq> None"
  by (cases p) simp_all

lemma upper_rows_entry:
  assumes up: "upper_rows mat" and ok: "point_ok mat (AtEntry r i e s)"
    and c: "count_ok mat N (AtEntry r i e s)"
  shows "at_walk (step mat (AtEntry r i e s)) = None"
proof -
  have wf: "well_formed mat" using up by (simp add: upper_rows_def)
  have ir: "in_row (nat (rows mat)) r s" using ok by simp
  have r0: "0 \<le> r" by (rule in_row_lengths(5)[OF ir])
  have rn: "r < rows mat" and e: "e = row_ptr mat ! nat (r + 1)"
    and i0: "row_ptr mat ! nat r \<le> i"
    using c by (simp_all add: row_progress_def)
  note b = well_formed_row_bounds[OF wf r0 rn]
  have "r \<le> col_idx mat ! nat i" if ie: "i < e"
  proof -
    have r1: "nat (r + 1) = nat r + 1" using r0 by simp
    have "nat i \<in> {nat (row_ptr mat ! nat r)..<nat (row_ptr mat ! (nat r + 1))}"
      using i0 ie e b(3) r1 by simp
    then have "col_idx mat ! nat i \<in> set (row_cols mat (nat r))"
      unfolding row_cols_set by (rule imageI)
    moreover have "nat r \<in> {0..<nat (rows mat)}" using r0 rn by simp
    ultimately have "int (nat r) \<le> col_idx mat ! nat i"
      using up unfolding upper_rows_def by blast
    then show ?thesis using r0 by simp
  qed
  then show ?thesis by (auto simp: Let_def)
qed

lemma upper_rows_no_walk:
  assumes "upper_rows mat"
  shows "at_walk (point_after mat k) = None"
proof (induction k)
  case 0
  show ?case by (simp add: point_after_def start_point_def)
next
  case (Suc k)
  have wf: "well_formed mat" using assms by (simp add: upper_rows_def)
  note ok = point_ok_after[of mat k]
  note c = count_ok_after[OF wf, of k]
  show ?case
  proof (cases "point_after mat k")
    case (AtRow r s)
    then show ?thesis unfolding point_after_Suc by (simp add: Let_def)
  next
    case (AtEntry r i e s)
    then show ?thesis
      unfolding point_after_Suc using upper_rows_entry[OF assms] ok c by simp
  next
    case (AtWalk r i e c s)
    then show ?thesis using Suc by simp
  next
    case (Returned v)
    then show ?thesis unfolding point_after_Suc by simp
  next
    case (Faulted f)
    then show ?thesis unfolding point_after_Suc by simp
  qed
qed

lemma upper_rows_increments:
  assumes "upper_rows mat"
  shows "increments mat k = 0"
proof -
  have "\<not> runs_body (point_after mat j)" for j
    using runs_body_at_walk[of "point_after mat j"] upper_rows_no_walk[OF assms, of j] by blast
  then show ?thesis by (simp add: increments_def)
qed

lemma diag_csr_fields:
  "rows (diag_csr n) = int n"
  "length (row_ptr (diag_csr n)) = n + 1"
  "length (col_idx (diag_csr n)) = n"
  "r \<le> n \<Longrightarrow> row_ptr (diag_csr n) ! r = int r"
  "r < n \<Longrightarrow> col_idx (diag_csr n) ! r = int r"
proof -
  show "rows (diag_csr n) = int n" "length (row_ptr (diag_csr n)) = n + 1"
    "length (col_idx (diag_csr n)) = n"
    by (simp_all add: diag_csr_def)
  show "row_ptr (diag_csr n) ! r = int r" if "r \<le> n"
  proof -
    have "map int [0..<n + 1] ! r = int (0 + r)"
      by (rule nth_map_upt) (use that in simp)
    then show ?thesis by (simp add: diag_csr_def)
  qed
  show "col_idx (diag_csr n) ! r = int r" if "r < n"
    using that by (simp add: diag_csr_def)
qed

lemma diag_csr_well_formed: "well_formed (diag_csr n)"
proof -
  have cols: "0 \<le> c \<and> c < int n" if "c \<in> set (col_idx (diag_csr n))" for c
    using that by (auto simp: diag_csr_def)
  have mono: "row_ptr (diag_csr n) ! r \<le> row_ptr (diag_csr n) ! (r + 1)" if "r < n" for r
    using that diag_csr_fields(4)[of r n] diag_csr_fields(4)[of "r + 1" n] by simp
  have first: "row_ptr (diag_csr n) ! 0 = 0"
    using diag_csr_fields(4)[of 0 n] by simp
  have last: "row_ptr (diag_csr n) ! n = int n"
    using diag_csr_fields(4)[of n n] by simp
  show ?thesis
    unfolding well_formed_def
    using cols mono first last by (simp add: diag_csr_fields(1-3))
qed

lemma diag_csr_upper: "upper_rows (diag_csr n)"
proof -
  have "int r \<le> c" if rr: "r \<in> {0..<n}" and cc: "c \<in> set (row_cols (diag_csr n) r)" for r c
  proof -
    have r: "r < n" using rr by simp
    have lo: "nat (row_ptr (diag_csr n) ! r) = r"
      using diag_csr_fields(4)[of r n] r by simp
    have hi: "nat (row_ptr (diag_csr n) ! (r + 1)) = Suc r"
      using diag_csr_fields(4)[of "r + 1" n] r by simp
    have "row_cols (diag_csr n) r = map (\<lambda>i. col_idx (diag_csr n) ! i) [r..<Suc r]"
      unfolding row_cols_def by (simp only: lo hi)
    then have "row_cols (diag_csr n) r = [int r]"
      using diag_csr_fields(5)[OF r] by simp
    then show ?thesis using cc by simp
  qed
  then show ?thesis
    unfolding upper_rows_def
    using diag_csr_well_formed[of n] by (simp add: diag_csr_fields(1))
qed

section \<open>The claims about the elimination-tree counter\<close>

lemma triangle_fits:
  assumes "0 \<le> n" and "n \<le> 46340" and "2 * N \<le> n * (n - 1)"
  shows "2 * N + n \<le> INT_MAX" and "2 * N + n \<le> n * n"
proof -
  show b: "2 * N + n \<le> n * n"
    using assms(3) by (simp add: algebra_simps)
  have "n * n \<le> 2147395600"
    by (rule square_bound[OF assms(1,2)])
  then show "2 * N + n \<le> INT_MAX"
    using b by (simp add: INT_MAX_def)
qed

text \<open>
  C5, as the code has it. For every well-formed full-CSR pattern of order \<open>n\<close> the sweep
  ends after finitely many steps and returns a value, never a fault. With \<open>N\<close> the number
  of times it executed \<open>nnz++\<close>, the value returned is \<open>2 * N + n\<close> wrapped to \<open>int\<close>, and
  \<open>N \<le> n * (n - 1) / 2\<close>. So whenever \<open>2 * N + n\<close> is within \<open>INT_MAX\<close> the value returned
  is \<open>2 * N + n\<close> itself, a nonnegative integer; in particular for every order up to 46340.
\<close>

theorem count_nnz_fillin_terminates:
  assumes "well_formed mat"
  shows "\<exists>k v. point_after mat k = Returned v \<and> count_nnz_fillin mat = Inr v \<and>
               v = to_int32 (2 * int (increments mat k) + rows mat) \<and>
               2 * int (increments mat k) \<le> rows mat * (rows mat - 1) \<and>
               (2 * int (increments mat k) + rows mat \<le> INT_MAX \<longrightarrow>
                  v = 2 * int (increments mat k) + rows mat \<and> 0 \<le> v) \<and>
               (rows mat \<le> 46340 \<longrightarrow> 0 \<le> v \<and> v \<le> rows mat * rows mat)"
proof -
  have n0: "0 \<le> rows mat" using assms by (simp add: well_formed_def)
  obtain k v where k: "point_after mat k = Returned v" and c: "count_nnz_fillin mat = Inr v"
    and v: "v = to_int32 (2 * int (increments mat k) + rows mat)"
    and hi: "2 * int (increments mat k) \<le> rows mat * (rows mat - 1)"
    using sweep_result[OF assms] by blast
  define N where "N = int (increments mat k)"
  have N0: "0 \<le> N" by (simp add: N_def)
  have exact: "v = 2 * N + rows mat \<and> 0 \<le> v" if fits: "2 * N + rows mat \<le> INT_MAX"
  proof -
    have a: "- 2147483648 \<le> 2 * N + rows mat" using N0 n0 by linarith
    have b: "2 * N + rows mat \<le> 2147483647" using fits by (simp add: INT_MAX_def)
    have "to_int32 (2 * N + rows mat) = 2 * N + rows mat"
      by (rule to_int32_id[OF a b])
    then show ?thesis using v N0 n0 by (simp add: N_def)
  qed
  have small: "0 \<le> v \<and> v \<le> rows mat * rows mat" if le: "rows mat \<le> 46340"
  proof -
    have h: "2 * N \<le> rows mat * (rows mat - 1)" using hi by (simp add: N_def)
    note t = triangle_fits[OF n0 le h]
    show ?thesis using exact[OF t(1)] t(2) by simp
  qed
  show ?thesis
    using k c v hi exact small unfolding N_def by blast
qed

theorem count_nnz_fillin_terminates_witness:
  "well_formed \<lparr>rows = 4, row_ptr = [0, 2, 5, 8, 10], col_idx = [0, 1, 0, 1, 2, 1, 2, 3, 2, 3]\<rparr> \<and>
   count_nnz_fillin
     \<lparr>rows = 4, row_ptr = [0, 2, 5, 8, 10], col_idx = [0, 1, 0, 1, 2, 1, 2, 3, 2, 3]\<rparr> = Inr 10 \<and>
   (\<exists>k. point_after
           \<lparr>rows = 4, row_ptr = [0, 2, 5, 8, 10], col_idx = [0, 1, 0, 1, 2, 1, 2, 3, 2, 3]\<rparr> k
         = Returned 10 \<and>
        increments
           \<lparr>rows = 4, row_ptr = [0, 2, 5, 8, 10], col_idx = [0, 1, 0, 1, 2, 1, 2, 3, 2, 3]\<rparr> k
         = 3) \<and>
   well_formed (diag_csr 46341) \<and>
   count_nnz_fillin (diag_csr 46341) = Inr 46341"
proof -
  let ?M = "\<lparr>rows = 4, row_ptr = [0, 2, 5, 8, 10], col_idx = [0, 1, 0, 1, 2, 1, 2, 3, 2, 3]\<rparr>"
  have wf: "well_formed ?M" by code_simp
  have c: "count_nnz_fillin ?M = Inr 10" by code_simp
  obtain k v where k: "point_after ?M k = Returned v" and cv: "count_nnz_fillin ?M = Inr v"
    and hi: "2 * int (increments ?M k) \<le> rows ?M * (rows ?M - 1)"
    and ex: "2 * int (increments ?M k) + rows ?M \<le> INT_MAX \<longrightarrow>
               v = 2 * int (increments ?M k) + rows ?M \<and> 0 \<le> v"
    using count_nnz_fillin_terminates[OF wf] by blast
  have v10: "v = 10" using c cv by simp
  have "2 * int (increments ?M k) + rows ?M \<le> INT_MAX"
    using hi by (simp add: INT_MAX_def)
  then have "v = 2 * int (increments ?M k) + rows ?M" using ex by blast
  then have "increments ?M k = 3" using v10 by simp
  then have small: "\<exists>k. point_after ?M k = Returned 10 \<and> increments ?M k = 3"
    using k v10 by blast
  have wd: "well_formed (diag_csr 46341)" by (rule diag_csr_well_formed)
  obtain j u where cu: "count_nnz_fillin (diag_csr 46341) = Inr u"
    and u: "u = to_int32 (2 * int (increments (diag_csr 46341) j) + rows (diag_csr 46341))"
    using count_nnz_fillin_terminates[OF wd] by blast
  have "increments (diag_csr 46341) j = 0"
    by (rule upper_rows_increments[OF diag_csr_upper])
  then have "u = 46341" using u by (simp add: diag_csr_fields(1) to_int32_def)
  then have big: "count_nnz_fillin (diag_csr 46341) = Inr 46341" using cu by simp
  show ?thesis using wf c small wd big by (intro conjI)
qed

text \<open>
  C5 as stated fails where the count leaves the range of \<open>int\<close>: the arrowhead pattern of
  order 46341 (139021 stored entries) is well formed, the sweep returns, and the value
  returned is negative.
\<close>

theorem count_nnz_fillin_negative:
  "well_formed (arrow_csr 46341) \<and> count_nnz_fillin (arrow_csr 46341) = Inr (- 2147479015)"
  using count_nnz_fillin_column0[OF arrow_csr_column0, of 46341]
  by (simp add: arrow_csr_well_formed arrow_csr_fields(1) to_int32_def)

text \<open>
  C6, as the code has it. For every fully dense pattern of order \<open>n\<close> up to 46340 (every
  row \<open>r\<close> stores every column below \<open>r\<close>, in any order, and whatever it stores from the
  diagonal on) the counter returns exactly \<open>n * n\<close>.
\<close>

theorem dense_pattern_fill_count:
  assumes "dense_rows mat" and "rows mat \<le> 46340"
  shows "count_nnz_fillin mat = Inr (rows mat * rows mat)"
proof -
  have "well_formed mat" using assms(1) by (simp add: dense_rows_def)
  then have n0: "0 \<le> rows mat" by (simp add: well_formed_def)
  have "rows mat * rows mat \<le> 2147395600"
    by (rule square_bound[OF n0 assms(2)])
  then have a: "rows mat * rows mat \<le> 2147483647" by linarith
  have b: "- 2147483648 \<le> rows mat * rows mat"
    using zero_le_square[of "rows mat"] by linarith
  have "to_int32 (rows mat * rows mat) = rows mat * rows mat"
    by (rule to_int32_id[OF b a])
  then show ?thesis
    using count_nnz_fillin_column0[OF dense_rows_column0[OF assms(1)]] assms(2) by simp
qed

theorem dense_pattern_fill_count_witness:
  "dense_rows (dense_csr 3) \<and> dense_csr 3 = \<lparr>rows = 3, row_ptr = [0, 1, 3, 6], col_idx = [0, 0, 1, 0, 1, 2]\<rparr> \<and>
   count_nnz_fillin (dense_csr 3) = Inr 9 \<and>
   dense_rows \<lparr>rows = 3, row_ptr = [0, 3, 6, 9], col_idx = [2, 1, 0, 2, 1, 0, 2, 1, 0]\<rparr> \<and>
   count_nnz_fillin \<lparr>rows = 3, row_ptr = [0, 3, 6, 9], col_idx = [2, 1, 0, 2, 1, 0, 2, 1, 0]\<rparr>
     = Inr 9"
proof -
  have d: "dense_rows \<lparr>rows = 3, row_ptr = [0, 3, 6, 9], col_idx = [2, 1, 0, 2, 1, 0, 2, 1, 0]\<rparr>"
    by code_simp
  have e: "dense_csr 3 = \<lparr>rows = 3, row_ptr = [0, 1, 3, 6], col_idx = [0, 0, 1, 0, 1, 2]\<rparr>"
    by code_simp
  show ?thesis
    using dense_pattern_fill_count[OF dense_csr_dense, of 3] dense_pattern_fill_count[OF d]
      dense_csr_dense[of 3] d e
    by (simp add: dense_csr_fields(1))
qed

text \<open>
  C6 as stated fails from order 46341 on, where \<open>n * n\<close> leaves the range of \<open>int\<close>: on the
  fully dense lower-triangular pattern of that order the counter returns a negative value.
\<close>

theorem dense_pattern_fill_count_overflow:
  "dense_rows (dense_csr 46341) \<and>
   count_nnz_fillin (dense_csr 46341) = Inr (- 2147479015) \<and>
   count_nnz_fillin (dense_csr 46341) \<noteq> Inr (46341 * 46341)"
  using count_nnz_fillin_column0[OF dense_rows_column0[OF dense_csr_dense], of 46341]
  by (simp add: dense_csr_dense dense_csr_fields(1) to_int32_def)

subsection \<open>The fill count and the nonzeros of the matrix\<close>





end
